theory Spec2Isabelle
  imports Main
begin

section \<open>The metadata generator of testharnessreport.js\<close>

text \<open>
  The file \<^verbatim>\<open>src/testharnessreport.js\<close> defines one object, \<^verbatim>\<open>metadata_generator\<close>,
  whose methods extract the metadata of the tests that have run, compare it with the
  copy cached in the page and render it as source text. Each method is a HOL function
  of the same name; the fields the methods read and write are passed explicitly, and a
  method that can throw returns the error or its result.
  \<^verbatim>\<open>setup\<close> registers \<^verbatim>\<open>process\<close> as the completion callback of the harness, which is
  not part of the file: a run of the callback is an application of \<open>process\<close> to the
  tests the harness passes.
\<close>

subsection \<open>Objects\<close>

text \<open>
  A JavaScript object is an association list of its own properties, in the order in
  which \<^verbatim>\<open>for (p in o)\<close> enumerates them: the names that are array indices first, in
  ascending order of the index, then the other names in the order of their creation. An
  array index is the decimal numeral, without a leading zero, of a number below
  \<open>2\<^sup>3\<^sup>2 - 1\<close>.
\<close>

type_synonym 'v js_object = "(string \<times> 'v) list"

definition is_digit :: "char \<Rightarrow> bool" where
  "is_digit c = (48 \<le> (of_char c :: nat) \<and> (of_char c :: nat) \<le> 57)"

definition digits_value :: "string \<Rightarrow> nat" where
  "digits_value k = foldl (\<lambda>n c. 10 * n + ((of_char c :: nat) - 48)) 0 k"

definition is_array_index :: "string \<Rightarrow> bool" where
  "is_array_index k =
     (k \<noteq> [] \<and> list_all is_digit k \<and> (k = ''0'' \<or> hd k \<noteq> CHR ''0'')
      \<and> digits_value k < 4294967295)"

definition enumerated_before :: "string \<Rightarrow> string \<Rightarrow> bool" where
  "enumerated_before k k' =
     (is_array_index k \<and> (if is_array_index k' then digits_value k < digits_value k' else True))"

text \<open>
  \<^verbatim>\<open>o[k] = v\<close> is \<open>js_put\<close>: the value of an own property is replaced where it is, and
  a new property takes its place in the order of enumeration. \<^verbatim>\<open>delete o[k]\<close> is
  \<open>js_delete\<close>.
\<close>

fun js_insert :: "'v js_object \<Rightarrow> string \<Rightarrow> 'v \<Rightarrow> 'v js_object" where
  "js_insert [] k v = [(k, v)]"
| "js_insert ((k', v') # obj) k v =
     (if enumerated_before k k' then (k, v) # (k', v') # obj else (k', v') # js_insert obj k v)"

fun js_update :: "'v js_object \<Rightarrow> string \<Rightarrow> 'v \<Rightarrow> 'v js_object" where
  "js_update [] k v = []"
| "js_update ((k', v') # obj) k v =
     (if k' = k then (k, v) # obj else (k', v') # js_update obj k v)"

definition js_put :: "'v js_object \<Rightarrow> string \<Rightarrow> 'v \<Rightarrow> 'v js_object" where
  "js_put obj k v = (if map_of obj k = None then js_insert obj k v else js_update obj k v)"

fun js_delete :: "'v js_object \<Rightarrow> string \<Rightarrow> 'v js_object" where
  "js_delete [] k = []"
| "js_delete ((k', v') # obj) k = (if k' = k then js_delete obj k else (k', v') # js_delete obj k)"

text \<open>
  \<^verbatim>\<open>o.hasOwnProperty(k)\<close> looks the method up on \<open>o\<close> itself first. An object of the
  model holds data, never a function: when \<open>o\<close> has an own property named
  \<^verbatim>\<open>hasOwnProperty\<close>, the call is a call of that value and throws a TypeError. Otherwise
  the method is the builtin of \<^verbatim>\<open>Object.prototype\<close>, which tells whether \<open>k\<close> is among
  the own properties.
\<close>

datatype error = TypeError

definition builtin_hasOwnProperty :: "'v js_object \<Rightarrow> string \<Rightarrow> bool" where
  "builtin_hasOwnProperty obj k = (map_of obj k \<noteq> None)"

definition shadows_hasOwnProperty :: "'v js_object \<Rightarrow> bool" where
  "shadows_hasOwnProperty obj = (map_of obj ''hasOwnProperty'' \<noteq> None)"

definition hasOwnProperty :: "'v js_object \<Rightarrow> string \<Rightarrow> error + bool" where
  "hasOwnProperty obj k =
     (if shadows_hasOwnProperty obj then Inl TypeError else Inr (builtin_hasOwnProperty obj k))"

text \<open>
  \<^verbatim>\<open>a && b\<close> and \<^verbatim>\<open>a || b\<close> on two calls that can throw: \<open>b\<close> is not called, and so
  does not throw, when \<open>a\<close> decides.
\<close>

definition js_and :: "error + bool \<Rightarrow> error + bool \<Rightarrow> error + bool" where
  "js_and a b = (case a of Inl e \<Rightarrow> Inl e | Inr x \<Rightarrow> if x then b else Inr False)"

definition js_or :: "error + bool \<Rightarrow> error + bool \<Rightarrow> error + bool" where
  "js_or a b = (case a of Inl e \<Rightarrow> Inl e | Inr x \<Rightarrow> if x then Inr True else b)"

subsection \<open>Values and test records\<close>

text \<open>
  The value of a metadata property is a string or an array of strings: a test declares
  \<^verbatim>\<open>help\<close>, \<^verbatim>\<open>assert\<close> and \<^verbatim>\<open>author\<close> as one or the other, and the renderer has a
  branch for each. Other kinds of values (numbers, \<^verbatim>\<open>null\<close>, nested objects, functions)
  are outside the model.
\<close>

datatype jsval = JStr string | JArr "string list"

type_synonym submapping = "jsval js_object"
type_synonym mapping = "submapping js_object"

record 'v test =
  name :: string
  properties :: "'v js_object"

definition metadataProperties :: "string list" where
  "metadataProperties = [''help'', ''assert'', ''author'']"

subsection \<open>extractFromTest\<close>

text \<open>
  The loop over \<^verbatim>\<open>metadataProperties\<close>, with the object under construction as its
  state. A value is copied as it is, so the function is polymorphic in the values. The
  call \<^verbatim>\<open>test.properties.hasOwnProperty(meta)\<close> can throw, and then so does the function.
\<close>

fun extractFromTest_loop ::
    "'v test \<Rightarrow> string list \<Rightarrow> 'v js_object \<Rightarrow> error + 'v js_object" where
  "extractFromTest_loop t [] testMetadata = Inr testMetadata"
| "extractFromTest_loop t (meta # rest) testMetadata =
     (case hasOwnProperty (properties t) meta of
        Inl e \<Rightarrow> Inl e
      | Inr own \<Rightarrow>
          extractFromTest_loop t rest
            (if own then
               (case map_of (properties t) meta of
                  Some v \<Rightarrow> js_put testMetadata meta v
                | None \<Rightarrow> testMetadata)
             else testMetadata))"

definition extractFromTest :: "'v test \<Rightarrow> error + 'v js_object" where
  "extractFromTest t = extractFromTest_loop t metadataProperties []"

subsection \<open>validateCache\<close>

text \<open>
  \<^verbatim>\<open>v.length\<close> and \<^verbatim>\<open>v[index]\<close> on a string and on an array. An index out of range
  yields \<^verbatim>\<open>undefined\<close>, here \<open>None\<close>; indexing a string yields the string of that one
  character. On strings and \<^verbatim>\<open>undefined\<close> the operator \<^verbatim>\<open>!=\<close> is inequality.
\<close>

fun js_length :: "jsval \<Rightarrow> nat" where
  "js_length (JStr s) = length s"
| "js_length (JArr xs) = length xs"

fun js_index :: "jsval \<Rightarrow> nat \<Rightarrow> string option" where
  "js_index (JStr s) i = (if i < length s then Some [s ! i] else None)"
| "js_index (JArr xs) i = (if i < length xs then Some (xs ! i) else None)"

text \<open>
  The type check is written \<^verbatim>\<open>! cachedTestMetadata[meta] instanceof Array\<close>. The
  negation binds tighter than \<^verbatim>\<open>instanceof\<close>, so the left operand of \<^verbatim>\<open>instanceof\<close>
  is the boolean \<^verbatim>\<open>!cachedTestMetadata[meta]\<close>. An operand is therefore a boolean or a
  metadata value.
\<close>

fun ToBoolean :: "jsval \<Rightarrow> bool" where
  "ToBoolean (JStr s) = (s \<noteq> [])"
| "ToBoolean (JArr xs) = True"

definition js_not :: "jsval \<Rightarrow> bool" where
  "js_not v = (\<not> ToBoolean v)"

fun instanceof_Array :: "bool + jsval \<Rightarrow> bool" where
  "instanceof_Array (Inl b) = False"
| "instanceof_Array (Inr (JStr s)) = False"
| "instanceof_Array (Inr (JArr xs)) = True"

definition type_check :: "jsval \<Rightarrow> bool" where
  "type_check cachedValue = instanceof_Array (Inl (js_not cachedValue))"

text \<open>The innermost loop, over \<^verbatim>\<open>index\<close>; \<open>False\<close> is its \<^verbatim>\<open>return false\<close>.\<close>

function index_loop :: "jsval \<Rightarrow> jsval \<Rightarrow> nat \<Rightarrow> bool" where
  "index_loop cachedValue testValue index =
     (if index < js_length cachedValue then
        (if js_index cachedValue index \<noteq> js_index testValue index then False
         else index_loop cachedValue testValue (Suc index))
      else True)"
  by pat_completeness auto
termination
  by (relation "measure (\<lambda>(c, e, index). js_length c - index)") auto

declare index_loop.simps [simp del]

text \<open>
  The loop over \<^verbatim>\<open>metadataProperties\<close> for one test: \<open>Inr False\<close> is any of its
  \<^verbatim>\<open>return false\<close>, \<open>Inr True\<close> is falling out of the loop, \<open>Inl\<close> is a call of
  \<^verbatim>\<open>hasOwnProperty\<close> that throws. The condition of the \<^verbatim>\<open>else if\<close> calls
  \<^verbatim>\<open>hasOwnProperty\<close> again.
\<close>

fun meta_loop :: "submapping \<Rightarrow> submapping \<Rightarrow> string list \<Rightarrow> error + bool" where
  "meta_loop cachedTestMetadata testMetadata [] = Inr True"
| "meta_loop cachedTestMetadata testMetadata (meta # rest) =
     (case js_and (hasOwnProperty cachedTestMetadata meta) (hasOwnProperty testMetadata meta) of
        Inl e \<Rightarrow> Inl e
      | Inr both \<Rightarrow>
          if both then
            (case (map_of cachedTestMetadata meta, map_of testMetadata meta) of
               (Some cachedValue, Some testValue) \<Rightarrow>
                 (if type_check cachedValue then Inr False
                  else if js_length cachedValue = js_length testValue then
                    (if index_loop cachedValue testValue 0
                     then meta_loop cachedTestMetadata testMetadata rest
                     else Inr False)
                  else Inr False)
             | _ \<Rightarrow> Inr False)
          else
            (case js_or (hasOwnProperty cachedTestMetadata meta)
                        (hasOwnProperty testMetadata meta) of
               Inl e \<Rightarrow> Inl e
             | Inr either \<Rightarrow>
                 if either then Inr False
                 else meta_loop cachedTestMetadata testMetadata rest))"

text \<open>
  The loop over the names of \<^verbatim>\<open>this.metadata\<close>. It returns how it ended, with
  \<open>Inr True\<close> for running to its end, and the cached mapping as the deletions have left
  it. The entry of a name is deleted before it is compared.
\<close>

fun validate_loop :: "mapping \<Rightarrow> mapping \<Rightarrow> (error + bool) \<times> mapping" where
  "validate_loop [] cached = (Inr True, cached)"
| "validate_loop ((testName, testMetadata) # rest) cached =
     (case hasOwnProperty cached testName of
        Inl e \<Rightarrow> (Inl e, cached)
      | Inr own \<Rightarrow>
          if \<not> own then (Inr False, cached)
          else
            (case map_of cached testName of
               None \<Rightarrow> (Inr False, cached)
             | Some cachedTestMetadata \<Rightarrow>
                 (let cached' = js_delete cached testName in
                  case meta_loop cachedTestMetadata testMetadata metadataProperties of
                    Inl e \<Rightarrow> (Inl e, cached')
                  | Inr ok \<Rightarrow> if ok then validate_loop rest cached' else (Inr False, cached'))))"

text \<open>
  \<^verbatim>\<open>for (var testName in cached_metadata) { return false; }\<close> returns \<^verbatim>\<open>false\<close> as soon as
  the mapping has a name left.
\<close>

definition validateCache :: "mapping \<Rightarrow> mapping \<Rightarrow> (error + bool) \<times> mapping" where
  "validateCache metadata cached =
     (case validate_loop metadata cached of
        (Inl e, cached') \<Rightarrow> (Inl e, cached')
      | (Inr ok, cached') \<Rightarrow>
          if ok then (case cached' of [] \<Rightarrow> (Inr True, cached') | leftover # _ \<Rightarrow> (Inr False, cached'))
          else (Inr False, cached'))"

subsection \<open>The renderer\<close>

text \<open>
  \<^verbatim>\<open>JSON.stringify\<close> is a builtin of the language, not code of this repository. On a
  string it is the standard's QuoteJSONString: the string between double quotes, with the
  double quote, the backslash and the control characters below U+0020 escaped. A
  \<open>char\<close> is one code unit below 256.
\<close>

abbreviation (input) DQ :: char where "DQ \<equiv> CHR 0x22"
abbreviation (input) BS :: char where "BS \<equiv> CHR 0x5C"
abbreviation (input) NL :: char where "NL \<equiv> CHR 0x0A"

definition hex_digit :: "nat \<Rightarrow> char" where
  "hex_digit n = ''0123456789abcdef'' ! n"

definition JSON_quote_char :: "char \<Rightarrow> string" where
  "JSON_quote_char c =
     (if c = DQ then [BS, DQ]
      else if c = BS then [BS, BS]
      else if c = CHR 0x08 then [BS, CHR ''b'']
      else if c = CHR 0x0C then [BS, CHR ''f'']
      else if c = CHR 0x0A then [BS, CHR ''n'']
      else if c = CHR 0x0D then [BS, CHR ''r'']
      else if c = CHR 0x09 then [BS, CHR ''t'']
      else if (of_char c :: nat) < 0x20 then
        [BS, CHR ''u'', CHR ''0'', CHR ''0'',
         hex_digit ((of_char c :: nat) div 16), hex_digit ((of_char c :: nat) mod 16)]
      else [c])"

definition JSON_stringify :: "string \<Rightarrow> string" where
  "JSON_stringify s = DQ # concat (map JSON_quote_char s) @ [DQ]"

text \<open>The loop of \<^verbatim>\<open>jsonifyArray\<close> over \<^verbatim>\<open>index\<close>, on the elements from \<^verbatim>\<open>index\<close> on.\<close>

fun jsonifyArray_loop :: "string list \<Rightarrow> string \<Rightarrow> nat \<Rightarrow> string" where
  "jsonifyArray_loop [] indent index = []"
| "jsonifyArray_loop (x # xs) indent index =
     (if 0 < index then '','' @ [NL] @ ''  '' @ indent else []) @ JSON_stringify x
       @ jsonifyArray_loop xs indent (Suc index)"

definition jsonifyArray :: "string list \<Rightarrow> string \<Rightarrow> string" where
  "jsonifyArray arrayValue indent =
     ''['' @ (if 1 = length arrayValue then JSON_stringify (arrayValue ! 0)
              else jsonifyArray_loop arrayValue indent 0) @ '']''"

text \<open>
  \<^verbatim>\<open>jsonifyObject\<close> is one recursive function with a branch for an array, one for an
  object and one for anything else. What it is applied to is a tree: an object whose
  values are metadata values or objects again.
\<close>

datatype jstree = Leaf jsval | Obj "(string \<times> jstree) list"

definition spaces16 :: string where
  "spaces16 = replicate 16 (CHR '' '')"

fun jsonifyObject :: "(string \<times> jstree) list \<Rightarrow> string \<Rightarrow> string"
  and jsonifyObject_loop :: "(string \<times> jstree) list \<Rightarrow> string \<Rightarrow> bool \<Rightarrow> string"
  and jsonifyValue :: "jstree \<Rightarrow> string \<Rightarrow> string \<Rightarrow> string" where
  "jsonifyObject objectValue indent =
     (let output = ''{'' @ jsonifyObject_loop objectValue indent True in
      (if 1 < length output then output @ [NL] @ indent else output) @ ''}'')"
| "jsonifyObject_loop [] indent first = []"
| "jsonifyObject_loop ((property, v) # rest) indent first =
     (if \<not> first then '','' else []) @
     [NL] @ ''  '' @ indent @ [DQ] @ property @ [DQ] @ '': '' @
     jsonifyValue v indent property @
     jsonifyObject_loop rest indent False"
| "jsonifyValue (Leaf (JArr arrayValue)) indent property =
     jsonifyArray arrayValue (indent @ take (5 + length property) spaces16)"
| "jsonifyValue (Obj objectValue) indent property = jsonifyObject objectValue (indent @ ''  '')"
| "jsonifyValue (Leaf (JStr s)) indent property = JSON_stringify s"

text \<open>\<^verbatim>\<open>this.metadata\<close> as the tree \<^verbatim>\<open>jsonifyObject\<close> walks.\<close>

definition tree_of_submapping :: "submapping \<Rightarrow> jstree" where
  "tree_of_submapping testMetadata = Obj (map (\<lambda>(k, v). (k, Leaf v)) testMetadata)"

definition tree_of_mapping :: "mapping \<Rightarrow> (string \<times> jstree) list" where
  "tree_of_mapping md = map (\<lambda>(testName, testMetadata). (testName, tree_of_submapping testMetadata)) md"

definition generateSource :: "mapping \<Rightarrow> string" where
  "generateSource md =
     ''<script id='' @ [DQ] @ ''test_metadata'' @ [DQ] @ ''>'' @ [NL] @
     ''var cached_metadata = '' @ jsonifyObject (tree_of_mapping md) [] @ [NL] @
     ''</script>'' @ [NL]"

subsection \<open>The document\<close>

text \<open>
  The messages go in front of the element whose id is \<^verbatim>\<open>summary\<close>, among the children
  of its parent, and to the end of the body when there is no such element. The document
  is the list of the children of that parent: of the parent of the summary element when
  there is one, of the body otherwise.
\<close>

text \<open>
  An element has a tag name, attributes and children. An attribute that is set keeps its
  place among the attributes when the element has it, and comes last when it is new. The
  generator sets attributes and appends children on the elements it has created only,
  never on a text node.
\<close>

datatype node = Text string | Element string "(string \<times> string) list" "node list"

definition createElement :: "string \<Rightarrow> node" where
  "createElement tagName = Element tagName [] []"

fun attr_put :: "(string \<times> string) list \<Rightarrow> string \<Rightarrow> string \<Rightarrow> (string \<times> string) list" where
  "attr_put [] k v = [(k, v)]"
| "attr_put ((k', v') # attrs) k v =
     (if k' = k then (k, v) # attrs else (k', v') # attr_put attrs k v)"

fun setAttribute :: "node \<Rightarrow> string \<Rightarrow> string \<Rightarrow> node" where
  "setAttribute (Element tagName attrs children) k v = Element tagName (attr_put attrs k v) children"
| "setAttribute (Text t) k v = Text t"

fun appendChild :: "node \<Rightarrow> node \<Rightarrow> node" where
  "appendChild (Element tagName attrs children) child = Element tagName attrs (children @ [child])"
| "appendChild (Text t) child = Text t"

definition appendText :: "node \<Rightarrow> string \<Rightarrow> node" where
  "appendText elemement text = appendChild elemement (Text text)"

fun has_id :: "string \<Rightarrow> node \<Rightarrow> bool" where
  "has_id i (Element tagName attrs children) = (map_of attrs ''id'' = Some i)"
| "has_id i (Text t) = False"

text \<open>
  \<^verbatim>\<open>document.getElementById(i)\<close> followed by \<^verbatim>\<open>parentNode.insertBefore\<close> of what
  it found: \<open>None\<close> when no element has the id.
\<close>

fun insertBefore_id :: "node list \<Rightarrow> node \<Rightarrow> string \<Rightarrow> node list option" where
  "insertBefore_id [] newNode i = None"
| "insertBefore_id (n # ns) newNode i =
     (if has_id i n then Some (newNode # n # ns)
      else map_option ((#) n) (insertBefore_id ns newNode i))"

definition place :: "node \<Rightarrow> node list \<Rightarrow> node list" where
  "place messageElement doc =
     (case insertBefore_id doc messageElement ''summary'' of
        Some doc' \<Rightarrow> doc'
      | None \<Rightarrow> doc @ [messageElement])"

subsection \<open>The generator's state, error and process\<close>

text \<open>
  \<open>metadata\<close> is the field \<^verbatim>\<open>metadata_generator.metadata\<close>, \<open>cached_metadata\<close> the
  global \<^verbatim>\<open>window.cached_metadata\<close>, \<open>None\<close> when it is \<^verbatim>\<open>undefined\<close> or \<^verbatim>\<open>null\<close>,
  the two values for which \<^verbatim>\<open>window.cached_metadata != undefined\<close> is false.
\<close>

record state =
  metadata :: mapping
  cached_metadata :: "mapping option"
  document :: "node list"

definition error_element :: "string \<Rightarrow> node" where
  "error_element message =
     appendText (setAttribute (createElement ''p'') ''class'' ''error'') message"

definition error :: "string \<Rightarrow> state \<Rightarrow> state" where
  "error message s = s\<lparr>document := place (error_element message) (document s)\<rparr>"

text \<open>
  \<^verbatim>\<open>this.metadata[test.name]\<close> reads a property through the prototype chain.
  \<^verbatim>\<open>this.metadata\<close> was created by the literal \<^verbatim>\<open>{}\<close>, so its prototype is
  \<^verbatim>\<open>Object.prototype\<close>, whose own properties are those of the language standard: each
  is a function, or for \<^verbatim>\<open>__proto__\<close> the prototype object itself.
\<close>

definition Object_prototype_properties :: "string list" where
  "Object_prototype_properties =
     [''constructor'', ''toString'', ''toLocaleString'', ''valueOf'', ''hasOwnProperty'',
      ''isPrototypeOf'', ''propertyIsEnumerable'', ''__proto__'', ''__defineGetter__'',
      ''__defineSetter__'', ''__lookupGetter__'', ''__lookupSetter__'']"

datatype 'v property = Own 'v | Inherited

definition js_get :: "'v js_object \<Rightarrow> string \<Rightarrow> 'v property option" where
  "js_get obj k =
     (case map_of obj k of
        Some v \<Rightarrow> Some (Own v)
      | None \<Rightarrow> if k \<in> set Object_prototype_properties then Some Inherited else None)"

text \<open>
  The condition \<^verbatim>\<open>if (this.metadata[test.name])\<close>: an object and a function are
  truthy, \<^verbatim>\<open>undefined\<close> is not.
\<close>

fun truthy :: "submapping property option \<Rightarrow> bool" where
  "truthy None = False"
| "truthy (Some (Own obj)) = True"
| "truthy (Some Inherited) = True"

text \<open>
  The body of the first loop of \<^verbatim>\<open>process\<close> and the loop. A method that changes the
  state and can throw returns the error, if any, and the state it leaves: when
  \<^verbatim>\<open>extractFromTest\<close> throws, the assignment to \<^verbatim>\<open>this.metadata[test.name]\<close> does not
  take place and the loop ends there.
\<close>

definition process_test :: "jsval test \<Rightarrow> state \<Rightarrow> error option \<times> state" where
  "process_test t s =
     (if truthy (js_get (metadata s) (name t)) then
        (None, error (''Duplicate test name: '' @ name t) s)
      else
        (case extractFromTest t of
           Inl e \<Rightarrow> (Some e, s)
         | Inr testMetadata \<Rightarrow> (None, s\<lparr>metadata := js_put (metadata s) (name t) testMetadata\<rparr>)))"

fun extract_tests :: "jsval test list \<Rightarrow> state \<Rightarrow> error option \<times> state" where
  "extract_tests [] s = (None, s)"
| "extract_tests (t # tests) s =
     (case process_test t s of
        (Some e, s') \<Rightarrow> (Some e, s')
      | (None, s') \<Rightarrow> extract_tests tests s')"

definition message_element :: "string \<Rightarrow> string \<Rightarrow> node" where
  "message_element message messageClass =
     (let messageElement = createElement ''p'';
          messageElement = setAttribute messageElement ''id'' ''metadata_issue'';
          messageElement = setAttribute messageElement ''class'' messageClass;
          messageElement = appendText messageElement message;
          link = createElement ''a'';
          link = appendText link ''Click for source code.'';
          link = setAttribute link ''href'' ''#'';
          link = setAttribute link ''onclick'' ''metadata_generator.addSourceElement()''
      in appendChild messageElement link)"

text \<open>
  The second half of \<^verbatim>\<open>process\<close>: \<open>message\<close> is \<open>None\<close> for \<^verbatim>\<open>null\<close>, and
  \<^verbatim>\<open>if (message)\<close> holds of a string that is not empty. When \<^verbatim>\<open>validateCache\<close> throws,
  the error leaves \<^verbatim>\<open>process\<close> and no message is inserted; the cached mapping stays as
  the validator left it.
\<close>

definition check_cache :: "state \<Rightarrow> (error + string option \<times> string) \<times> state" where
  "check_cache s =
     (let message = None; messageClass = ''warning'' in
      case cached_metadata s of
        Some cached \<Rightarrow>
          (case validateCache (metadata s) cached of
             (Inl e, cached') \<Rightarrow> (Inl e, s\<lparr>cached_metadata := Some cached'\<rparr>)
           | (Inr valid, cached') \<Rightarrow>
               (Inr (if \<not> valid then (Some ''Cached metadata out of sync. '', ''error'')
                     else (message, messageClass)),
                s\<lparr>cached_metadata := Some cached'\<rparr>))
      | None \<Rightarrow> (Inr (Some ''Cached metdata not present. '', messageClass), s))"

definition process :: "jsval test list \<Rightarrow> state \<Rightarrow> error option \<times> state" where
  "process tests s =
     (case extract_tests tests s of
        (Some e, s') \<Rightarrow> (Some e, s')
      | (None, s') \<Rightarrow>
          (case check_cache s' of
             (Inl e, s'') \<Rightarrow> (Some e, s'')
           | (Inr (message, messageClass), s'') \<Rightarrow>
               (case message of
                  Some m \<Rightarrow>
                    (if m \<noteq> [] then
                       (None, s''\<lparr>document := place (message_element m messageClass) (document s'')\<rparr>)
                     else (None, s''))
                | None \<Rightarrow> (None, s''))))"

subsection \<open>addSourceElement\<close>

text \<open>
  \<^verbatim>\<open>addSourceElement\<close> runs when the link of the message element is activated, after
  \<^verbatim>\<open>process\<close> has returned. It renders \<^verbatim>\<open>this.metadata\<close> as it then is and puts the
  block with the source where the message element was. When no element has the id
  \<^verbatim>\<open>metadata_issue\<close> the method fails on \<^verbatim>\<open>messageElement.parentNode\<close>: the result is
  \<open>None\<close>.
\<close>

definition source_wrapper :: "mapping \<Rightarrow> node" where
  "source_wrapper md =
     (let sourceWrapper = createElement ''div'';
          sourceWrapper = setAttribute sourceWrapper ''id'' ''metadata_source'';
          instructions = createElement ''p'';
          instructions = appendText instructions
            (''Copy the following into the <head> element of the test or the test'' @ [CHR 0x27] @
             ''s metadata sidecar file:'');
          sourceWrapper = appendChild sourceWrapper instructions;
          sourceElement = createElement ''pre'';
          sourceElement = appendText sourceElement (generateSource md);
          sourceWrapper = appendChild sourceWrapper sourceElement
      in sourceWrapper)"

fun replace_id :: "node list \<Rightarrow> string \<Rightarrow> node \<Rightarrow> node list option" where
  "replace_id [] i newNode = None"
| "replace_id (n # ns) i newNode =
     (if has_id i n then Some (newNode # ns)
      else map_option ((#) n) (replace_id ns i newNode))"

definition addSourceElement :: "state \<Rightarrow> state option" where
  "addSourceElement s =
     map_option (\<lambda>doc. s\<lparr>document := doc\<rparr>)
       (replace_id (document s) ''metadata_issue'' (source_wrapper (metadata s)))"

subsection \<open>Deep equality of two mappings\<close>

text \<open>
  The specification's rule for the validator, in its own words: the two mappings have
  the same test names, and for each test name the two sub-mappings agree on each
  recognized key, that is, the key is absent from both or is present in both with the
  same value. \<open>recognized_sequences\<close> says that in every sub-mapping of a mapping the
  value of each recognized key, where there is one, is a sequence, and
  \<open>builtin_entries\<close> that no sub-mapping of a mapping has an own property named
  \<^verbatim>\<open>hasOwnProperty\<close>.
\<close>

definition is_sequence_at :: "submapping \<Rightarrow> string \<Rightarrow> bool" where
  "is_sequence_at sub k = (case map_of sub k of Some (JStr s) \<Rightarrow> False | _ \<Rightarrow> True)"

definition recognized_sequences :: "mapping \<Rightarrow> bool" where
  "recognized_sequences m =
     (\<forall>(n, sub) \<in> set m. \<forall>k \<in> set metadataProperties. is_sequence_at sub k)"

definition builtin_entries :: "mapping \<Rightarrow> bool" where
  "builtin_entries m = (\<forall>(n, sub) \<in> set m. \<not> shadows_hasOwnProperty sub)"

definition deeply_equal_restricted :: "mapping \<Rightarrow> mapping \<Rightarrow> bool" where
  "deeply_equal_restricted md c =
     (set (map fst md) = set (map fst c) \<and>
      (\<forall>(n, e) \<in> set md.
         case map_of c n of
           None \<Rightarrow> False
         | Some cs \<Rightarrow> \<forall>k \<in> set metadataProperties. map_of e k = map_of cs k))"

text \<open>
  The number of extracted names whose cached entry the validator reaches, counted on
  the cached mapping as it is before any deletion. An entry is found when the call
  \<^verbatim>\<open>cached_metadata.hasOwnProperty(testName)\<close> returns true, and it passes when it is
  found and the loop over the recognized keys runs to its end on the two sub-mappings.
  The entries reached are those that pass, up to the first that does not, and that one
  too when it is found.
\<close>

definition found :: "mapping \<Rightarrow> string \<times> submapping \<Rightarrow> bool" where
  "found cached entry = (hasOwnProperty cached (fst entry) = Inr True)"

definition passes :: "mapping \<Rightarrow> string \<times> submapping \<Rightarrow> bool" where
  "passes cached entry =
     (found cached entry \<and>
      (case map_of cached (fst entry) of
         None \<Rightarrow> False
       | Some cachedTestMetadata \<Rightarrow>
           meta_loop cachedTestMetadata (snd entry) metadataProperties = Inr True))"

definition checked :: "mapping \<Rightarrow> mapping \<Rightarrow> nat" where
  "checked md cached =
     (let k = length (takeWhile (passes cached) md) in
      if k < length md \<and> found cached (md ! k) then Suc k else k)"

subsection \<open>Reading the generated source back\<close>

text \<open>
  The generated source is meant to be pasted into the page, where the engine reads the
  literal in it. Reading is the language's, not code of this repository: what follows
  reads a text by the grammar of JSON, for the values of the model, which are strings,
  arrays of strings and objects. White space may stand between tokens. A string stands
  between double quotes, holds no double quote, backslash or control character as such,
  and may hold the escapes of a double quote, a backslash, a slash, \<^verbatim>\<open>b\<close>, \<^verbatim>\<open>f\<close>,
  \<^verbatim>\<open>n\<close>, \<^verbatim>\<open>r\<close>, \<^verbatim>\<open>t\<close> and \<^verbatim>\<open>u\<close> with four hexadecimal digits, here of a code unit
  below 256.
\<close>

definition is_ws :: "char \<Rightarrow> bool" where
  "is_ws c = (c = CHR '' '' \<or> c = NL \<or> c = CHR 0x0D \<or> c = CHR 0x09)"

definition skip_ws :: "string \<Rightarrow> string" where
  "skip_ws s = dropWhile is_ws s"

definition hex_value :: "char \<Rightarrow> nat option" where
  "hex_value c =
     (let n = (of_char c :: nat) in
      if 48 \<le> n \<and> n \<le> 57 then Some (n - 48)
      else if 97 \<le> n \<and> n \<le> 102 then Some (n - 87)
      else if 65 \<le> n \<and> n \<le> 70 then Some (n - 55)
      else None)"

definition unescape :: "char \<Rightarrow> char option" where
  "unescape e =
     (if e = DQ then Some DQ
      else if e = BS then Some BS
      else if e = CHR ''/'' then Some (CHR ''/'')
      else if e = CHR ''b'' then Some (CHR 0x08)
      else if e = CHR ''f'' then Some (CHR 0x0C)
      else if e = CHR ''n'' then Some NL
      else if e = CHR ''r'' then Some (CHR 0x0D)
      else if e = CHR ''t'' then Some (CHR 0x09)
      else None)"

definition unicode_escape :: "char \<Rightarrow> char \<Rightarrow> char \<Rightarrow> char \<Rightarrow> char option" where
  "unicode_escape h1 h2 h3 h4 =
     (case (hex_value h1, hex_value h2, hex_value h3, hex_value h4) of
        (Some a, Some b, Some c, Some d) \<Rightarrow>
          if a = 0 \<and> b = 0 then Some (char_of (16 * c + d)) else None
      | _ \<Rightarrow> None)"

fun parse_chars :: "string \<Rightarrow> (string \<times> string) option" where
  "parse_chars [] = None"
| "parse_chars (c # cs) =
     (if c = DQ then Some ([], cs)
      else if c = BS then
        (case cs of
           [] \<Rightarrow> None
         | e # cs1 \<Rightarrow>
             if e = CHR ''u'' then
               (case cs1 of
                  h1 # h2 # h3 # h4 # cs2 \<Rightarrow>
                    (case unicode_escape h1 h2 h3 h4 of
                       Some d \<Rightarrow> map_option (\<lambda>(s, r). (d # s, r)) (parse_chars cs2)
                     | None \<Rightarrow> None)
                | _ \<Rightarrow> None)
             else
               (case unescape e of
                  Some d \<Rightarrow> map_option (\<lambda>(s, r). (d # s, r)) (parse_chars cs1)
                | None \<Rightarrow> None))
      else if (of_char c :: nat) < 0x20 then None
      else map_option (\<lambda>(s, r). (c # s, r)) (parse_chars cs))"

definition parse_string :: "string \<Rightarrow> (string \<times> string) option" where
  "parse_string s = (case s of [] \<Rightarrow> None | c # cs \<Rightarrow> if c = DQ then parse_chars cs else None)"

text \<open>
  The elements of an array after its opening bracket, and a value. A repeated name in an
  object overwrites the value the name had. The first argument bounds the number of
  calls; the length of the text is a bound that suffices.
\<close>

fun parse_elements :: "nat \<Rightarrow> string \<Rightarrow> (string list \<times> string) option" where
  "parse_elements 0 s = None"
| "parse_elements (Suc n) s =
     (case parse_string s of
        None \<Rightarrow> None
      | Some (x, r) \<Rightarrow>
          (case skip_ws r of
             [] \<Rightarrow> None
           | c # r' \<Rightarrow>
               if c = CHR '','' then
                 map_option (\<lambda>(xs, r''). (x # xs, r'')) (parse_elements n (skip_ws r'))
               else if c = CHR '']'' then Some ([x], r')
               else None))"

definition parse_array :: "nat \<Rightarrow> string \<Rightarrow> (string list \<times> string) option" where
  "parse_array n s =
     (case skip_ws s of
        [] \<Rightarrow> None
      | c # r \<Rightarrow> if c = CHR '']'' then Some ([], r) else parse_elements n (c # r))"

fun parse_value :: "nat \<Rightarrow> string \<Rightarrow> (jstree \<times> string) option"
  and parse_members ::
    "nat \<Rightarrow> (string \<times> jstree) list \<Rightarrow> string \<Rightarrow> ((string \<times> jstree) list \<times> string) option" where
  "parse_value 0 s = None"
| "parse_value (Suc n) s =
     (case s of
        [] \<Rightarrow> None
      | c # r \<Rightarrow>
          if c = DQ then map_option (\<lambda>(x, r'). (Leaf (JStr x), r')) (parse_chars r)
          else if c = CHR ''['' then map_option (\<lambda>(xs, r'). (Leaf (JArr xs), r')) (parse_array n r)
          else if c = CHR ''{'' then
            (case skip_ws r of
               [] \<Rightarrow> None
             | d # r' \<Rightarrow>
                 if d = CHR ''}'' then Some (Obj [], r')
                 else map_option (\<lambda>(ps, r''). (Obj ps, r'')) (parse_members n [] (d # r')))
          else None)"
| "parse_members 0 acc s = None"
| "parse_members (Suc n) acc s =
     (case parse_string s of
        None \<Rightarrow> None
      | Some (k, r) \<Rightarrow>
          (case skip_ws r of
             [] \<Rightarrow> None
           | c # r1 \<Rightarrow>
               if c = CHR '':'' then
                 (case parse_value n (skip_ws r1) of
                    None \<Rightarrow> None
                  | Some (v, r2) \<Rightarrow>
                      (case skip_ws r2 of
                         [] \<Rightarrow> None
                       | d # r3 \<Rightarrow>
                           if d = CHR '','' then parse_members n (js_put acc k v) (skip_ws r3)
                           else if d = CHR ''}'' then Some (js_put acc k v, r3)
                           else None))
               else None))"

text \<open>
  The mapping an object denotes, when its values are objects of metadata values, and the
  reading of a generated source: the literal between the fixed opening and closing
  lines.
\<close>

fun leaves :: "(string \<times> jstree) list \<Rightarrow> submapping option" where
  "leaves [] = Some []"
| "leaves ((k, Leaf v) # ps) = map_option ((#) (k, v)) (leaves ps)"
| "leaves ((k, Obj obj) # ps) = None"

fun submapping_of_tree :: "jstree \<Rightarrow> submapping option" where
  "submapping_of_tree (Obj ps) = leaves ps"
| "submapping_of_tree (Leaf v) = None"

fun mapping_of_props :: "(string \<times> jstree) list \<Rightarrow> mapping option" where
  "mapping_of_props [] = Some []"
| "mapping_of_props ((n, t) # ps) =
     (case submapping_of_tree t of
        None \<Rightarrow> None
      | Some sub \<Rightarrow> map_option ((#) (n, sub)) (mapping_of_props ps))"

definition source_header :: string where
  \<open>source_header = ''<script id="test_metadata">'' @ [NL] @ ''var cached_metadata = ''\<close>

definition source_footer :: string where
  "source_footer = [NL] @ ''</script>'' @ [NL]"

definition read_source :: "string \<Rightarrow> mapping option" where
  "read_source s =
     (if take (length source_header) s = source_header then
        (case parse_value (length s) (drop (length source_header) s) of
           Some (Obj ps, rest) \<Rightarrow> if rest = source_footer then mapping_of_props ps else None
         | _ \<Rightarrow> None)
      else None)"

text \<open>
  A name is plain when it has no double quote, no backslash and no control character:
  between double quotes it is then the JSON string of itself. An object has plain keys
  when its names are distinct and in the order of enumeration, as the names of an object
  are, and plain. An indentation
  is blank when it is made of spaces. A value reads back when the reader, given at least
  as much fuel as its rendering is long, reads the rendering as the value and leaves what
  follows it.
\<close>

definition plain :: "string \<Rightarrow> bool" where
  "plain s = (\<forall>c \<in> set s. c \<noteq> DQ \<and> c \<noteq> BS \<and> \<not> (of_char c :: nat) < 0x20)"

fun in_order :: "'v js_object \<Rightarrow> bool" where
  "in_order [] = True"
| "in_order ((k, v) # obj) = (list_all (\<lambda>(k', v'). \<not> enumerated_before k' k) obj \<and> in_order obj)"

definition plain_keys :: "'v js_object \<Rightarrow> bool" where
  "plain_keys obj =
     (distinct (map fst obj) \<and> in_order obj \<and> (\<forall>k \<in> set (map fst obj). plain k))"

definition blank :: "string \<Rightarrow> bool" where
  "blank s = (\<forall>c \<in> set s. c = CHR '' '')"

definition reads_back :: "jstree \<Rightarrow> string \<Rightarrow> string \<Rightarrow> bool" where
  "reads_back v indent k =
     (\<forall>n tail. length (jsonifyValue v indent k) \<le> n \<longrightarrow>
        parse_value n (jsonifyValue v indent k @ tail) = Some (v, tail))"

subsection \<open>Runs of process\<close>

text \<open>
  The state when the script has been loaded: \<^verbatim>\<open>metadata: {}\<close>, with the page's cached
  mapping and document as they are.
\<close>

definition initial :: "mapping option \<Rightarrow> node list \<Rightarrow> state" where
  "initial cached doc = \<lparr>metadata = [], cached_metadata = cached, document = doc\<rparr>"

text \<open>
  The names of the tests of a list that repeat a name already seen, one for each such
  occurrence and in their order, and the document after one error message for each.
\<close>

fun duplicate_occurrences :: "string list \<Rightarrow> 'v test list \<Rightarrow> string list" where
  "duplicate_occurrences seen [] = []"
| "duplicate_occurrences seen (t # ts) =
     (if name t \<in> set seen then name t # duplicate_occurrences seen ts
      else duplicate_occurrences (name t # seen) ts)"

definition report_duplicates :: "string list \<Rightarrow> node list \<Rightarrow> node list" where
  "report_duplicates names doc =
     foldl (\<lambda>d n. place (error_element (''Duplicate test name: '' @ n)) d) doc names"

section \<open>Properties\<close>

subsection \<open>Objects\<close>

lemma map_of_js_insert:
  "map_of obj k = None \<Longrightarrow> map_of (js_insert obj k v) = (map_of obj)(k \<mapsto> v)"
proof (induction obj)
  case Nil
  show ?case by simp
next
  case (Cons p obj)
  obtain k' v' where p: "p = (k', v')" by (cases p)
  from Cons.prems p have ne: "k' \<noteq> k" and none: "map_of obj k = None"
    by (auto split: if_splits)
  show ?case
  proof (cases "enumerated_before k k'")
    case True
    then show ?thesis by (auto simp: p intro!: ext)
  next
    case False
    then show ?thesis using Cons.IH [OF none] ne by (auto simp: p intro!: ext)
  qed
qed

lemma map_of_js_update:
  "map_of obj k \<noteq> None \<Longrightarrow> map_of (js_update obj k v) = (map_of obj)(k \<mapsto> v)"
  by (induction obj) (auto intro!: ext)

lemma map_of_js_put: "map_of (js_put obj k v) = (map_of obj)(k \<mapsto> v)"
  by (simp add: js_put_def map_of_js_insert map_of_js_update)

lemma keys_js_put: "fst ` set (js_put obj k v) = insert k (fst ` set obj)"
  by (simp add: dom_map_of_conv_image_fst [symmetric] map_of_js_put)

lemma set_js_insert: "set (js_insert obj k v) = insert (k, v) (set obj)"
  by (induction obj) (auto split: if_splits)

lemma keys_js_update: "map fst (js_update obj k v) = map fst obj"
  by (induction obj) auto

lemma set_js_update: "set (js_update obj k v) \<subseteq> insert (k, v) (set obj)"
  by (induction obj) (auto split: if_splits)

lemma set_js_put: "set (js_put obj k v) \<subseteq> insert (k, v) (set obj)"
  using set_js_update [of obj k v] by (auto simp: js_put_def set_js_insert)

lemma distinct_js_insert:
  "k \<notin> fst ` set obj \<Longrightarrow> distinct (map fst obj) \<Longrightarrow> distinct (map fst (js_insert obj k v))"
proof (induction obj)
  case Nil
  show ?case by simp
next
  case (Cons p obj)
  obtain k' v' where p: "p = (k', v')" by (cases p)
  have "fst ` set (js_insert obj k v) = insert k (fst ` set obj)"
    by (simp add: set_js_insert)
  with Cons p show ?case by auto
qed

lemma distinct_js_put: "distinct (map fst obj) \<Longrightarrow> distinct (map fst (js_put obj k v))"
  by (simp add: js_put_def keys_js_update distinct_js_insert map_of_eq_None_iff)

lemma js_insert_last:
  "\<forall>k' \<in> fst ` set obj. \<not> enumerated_before k k' \<Longrightarrow> js_insert obj k v = obj @ [(k, v)]"
  by (induction obj) auto

lemma js_put_last:
  "k \<notin> fst ` set obj \<Longrightarrow> \<forall>k' \<in> fst ` set obj. \<not> enumerated_before k k' \<Longrightarrow>
   js_put obj k v = obj @ [(k, v)]"
  by (simp add: js_put_def map_of_eq_None_iff js_insert_last)

lemma js_put_fresh:
  "k \<notin> fst ` set obj \<Longrightarrow> \<not> is_array_index k \<Longrightarrow> js_put obj k v = obj @ [(k, v)]"
  by (rule js_put_last) (simp_all add: enumerated_before_def)

lemma map_of_js_delete: "map_of (js_delete obj k) = (map_of obj)(k := None)"
  by (induction obj) (auto intro!: ext)

lemma js_delete_filter: "js_delete obj k = filter (\<lambda>p. fst p \<noteq> k) obj"
  by (induction obj) auto

lemma not_index_recognized:
  "\<forall>k \<in> set metadataProperties. \<not> is_array_index k"
  by (simp add: metadataProperties_def is_array_index_def is_digit_def)

subsection \<open>extractFromTest\<close>

lemma hasOwnProperty_builtin:
  "\<not> shadows_hasOwnProperty obj \<Longrightarrow> hasOwnProperty obj k = Inr (map_of obj k \<noteq> None)"
  by (simp add: hasOwnProperty_def builtin_hasOwnProperty_def)

lemma hasOwnProperty_shadowed:
  "shadows_hasOwnProperty obj \<Longrightarrow> hasOwnProperty obj k = Inl TypeError"
  by (simp add: hasOwnProperty_def)

lemma extractFromTest_loop_throws:
  "shadows_hasOwnProperty (properties t) \<Longrightarrow> ks \<noteq> [] \<Longrightarrow>
   extractFromTest_loop t ks acc = Inl TypeError"
  by (cases ks) (simp_all add: hasOwnProperty_shadowed)

lemma extractFromTest_loop_returns:
  "\<not> shadows_hasOwnProperty (properties t) \<Longrightarrow>
   \<exists>obj. extractFromTest_loop t ks acc = Inr obj"
  by (induction ks arbitrary: acc) (simp_all add: hasOwnProperty_builtin)

lemma map_of_extractFromTest_loop:
  "extractFromTest_loop t ks acc = Inr obj \<Longrightarrow>
   map_of obj k =
     (if k \<in> set ks \<and> map_of (properties t) k \<noteq> None then map_of (properties t) k
      else map_of acc k)"
proof (induction ks arbitrary: acc)
  case Nil
  then show ?case by simp
next
  case (Cons meta rest)
  from Cons.prems obtain own where own: "hasOwnProperty (properties t) meta = Inr own"
    by (cases "hasOwnProperty (properties t) meta") auto
  then have o: "own = (map_of (properties t) meta \<noteq> None)"
    by (auto simp: hasOwnProperty_def builtin_hasOwnProperty_def split: if_splits)
  let ?acc = "if own then (case map_of (properties t) meta of
                  Some v \<Rightarrow> js_put acc meta v | None \<Rightarrow> acc) else acc"
  from Cons.prems own have "extractFromTest_loop t rest ?acc = Inr obj" by simp
  from Cons.IH [OF this] show ?case
    using o by (auto simp: map_of_js_put split: option.splits)
qed

lemma keys_extractFromTest_loop:
  "extractFromTest_loop t ks acc = Inr obj \<Longrightarrow>
   distinct ks \<Longrightarrow> set ks \<inter> fst ` set acc = {} \<Longrightarrow> \<forall>k \<in> set ks. \<not> is_array_index k \<Longrightarrow>
   map fst obj = map fst acc @ filter (builtin_hasOwnProperty (properties t)) ks"
proof (induction ks arbitrary: acc)
  case Nil
  then show ?case by simp
next
  case (Cons meta rest)
  from Cons.prems(1) obtain own where own: "hasOwnProperty (properties t) meta = Inr own"
    by (cases "hasOwnProperty (properties t) meta") auto
  then have o: "own = builtin_hasOwnProperty (properties t) meta"
    by (auto simp: hasOwnProperty_def split: if_splits)
  show ?case
  proof (cases "map_of (properties t) meta")
    case None
    with Cons.prems own o have "extractFromTest_loop t rest acc = Inr obj"
      by (auto split: if_splits)
    from Cons.IH [OF this] Cons.prems None show ?thesis
      by (simp add: builtin_hasOwnProperty_def)
  next
    case (Some v)
    from Cons.prems have fresh: "meta \<notin> fst ` set acc" and ni: "\<not> is_array_index meta"
      by auto
    have put: "js_put acc meta v = acc @ [(meta, v)]"
      using fresh ni by (rule js_put_fresh)
    from Cons.prems(1) own o Some put
    have run: "extractFromTest_loop t rest (acc @ [(meta, v)]) = Inr obj"
      by (simp add: builtin_hasOwnProperty_def)
    have "set rest \<inter> fst ` set (acc @ [(meta, v)]) = {}"
      using Cons.prems by auto
    from Cons.IH [OF run _ this] Cons.prems Some show ?thesis
      by (simp add: builtin_hasOwnProperty_def)
  qed
qed

text \<open>
  C2, as the code has it. Take a test record \<open>R\<close>. When \<open>properties R\<close> has no own property
  named \<^verbatim>\<open>hasOwnProperty\<close>, \<open>extractFromTest R\<close> returns a new object that has the own
  property \<open>k\<close> exactly when \<open>k\<close> is one of \<^verbatim>\<open>help\<close>, \<^verbatim>\<open>assert\<close>, \<^verbatim>\<open>author\<close> and
  \<open>properties R\<close> has it as an own property; the value under \<open>k\<close> is then the value
  \<open>properties R\<close> has under \<open>k\<close>, whatever it is; and the keys come in the order help,
  assert, author. When \<open>properties R\<close> has an own property of that name, the call
  \<^verbatim>\<open>test.properties.hasOwnProperty(meta)\<close> reaches it, and \<open>extractFromTest R\<close> throws
  a \<^verbatim>\<open>TypeError\<close> at the first recognized key. Neither the record nor any state is among
  the results.
\<close>

theorem extractFromTest_contract:
  "(shadows_hasOwnProperty (properties R) \<longrightarrow> extractFromTest R = Inl TypeError)
   \<and> (\<not> shadows_hasOwnProperty (properties R) \<longrightarrow>
       (\<exists>obj. extractFromTest R = Inr obj
          \<and> (\<forall>k. builtin_hasOwnProperty obj k =
               (k \<in> {''help'', ''assert'', ''author''} \<and> builtin_hasOwnProperty (properties R) k))
          \<and> (\<forall>k. map_of obj k =
               (if k \<in> {''help'', ''assert'', ''author''} then map_of (properties R) k else None))
          \<and> map fst obj =
               filter (builtin_hasOwnProperty (properties R)) [''help'', ''assert'', ''author'']))"
proof -
  have a: "extractFromTest R = Inl TypeError" if "shadows_hasOwnProperty (properties R)"
    unfolding extractFromTest_def
    using that by (rule extractFromTest_loop_throws) (simp add: metadataProperties_def)
  have b: "\<exists>obj. extractFromTest R = Inr obj
          \<and> (\<forall>k. builtin_hasOwnProperty obj k =
               (k \<in> {''help'', ''assert'', ''author''} \<and> builtin_hasOwnProperty (properties R) k))
          \<and> (\<forall>k. map_of obj k =
               (if k \<in> {''help'', ''assert'', ''author''} then map_of (properties R) k else None))
          \<and> map fst obj =
               filter (builtin_hasOwnProperty (properties R)) [''help'', ''assert'', ''author'']"
    if ns: "\<not> shadows_hasOwnProperty (properties R)"
  proof -
    from extractFromTest_loop_returns [OF ns, of metadataProperties "[]"]
    obtain obj where run: "extractFromTest_loop R metadataProperties [] = Inr obj" by blast
    have m: "map_of obj k =
       (if k \<in> {''help'', ''assert'', ''author''} then map_of (properties R) k else None)" for k
      unfolding map_of_extractFromTest_loop [OF run]
      by (simp add: metadataProperties_def)
    have d: "distinct metadataProperties" by (simp add: metadataProperties_def)
    have "set metadataProperties \<inter> fst ` set ([] :: (string \<times> 'a) list) = {}" by simp
    from keys_extractFromTest_loop [OF run d this not_index_recognized]
    have o: "map fst obj =
        filter (builtin_hasOwnProperty (properties R)) [''help'', ''assert'', ''author'']"
      by (simp only: metadataProperties_def map_append list.map append_Nil)
    from m have h: "builtin_hasOwnProperty obj k =
        (k \<in> {''help'', ''assert'', ''author''} \<and> builtin_hasOwnProperty (properties R) k)" for k
      by (simp add: builtin_hasOwnProperty_def)
    from run m o h show ?thesis unfolding extractFromTest_def by blast
  qed
  from a b show ?thesis by blast
qed

theorem extractFromTest_contract_witness:
  "extractFromTest \<lparr>name = ''t1'', properties =
      [(''author'', JStr ''me''), (''timeout'', JStr ''5''), (''help'', JArr [''h1''])]\<rparr>
     = Inr [(''help'', JArr [''h1'']), (''author'', JStr ''me'')]
   \<and> extractFromTest \<lparr>name = ''t1'', properties =
      [(''hasOwnProperty'', JStr ''x''), (''help'', JArr [''h1''])]\<rparr> = Inl TypeError"
proof -
  have s: "shadows_hasOwnProperty [(''hasOwnProperty'', JStr ''x''), (''help'', JArr [''h1''])]"
    and ns: "\<not> shadows_hasOwnProperty
      [(''author'', JStr ''me''), (''timeout'', JStr ''5''), (''help'', JArr [''h1''])]"
    by (simp_all add: shadows_hasOwnProperty_def)
  from extractFromTest_contract [of "\<lparr>name = ''t1'', properties =
      [(''hasOwnProperty'', JStr ''x''), (''help'', JArr [''h1''])]\<rparr>"] s
  have 1: "extractFromTest \<lparr>name = ''t1'', properties =
      [(''hasOwnProperty'', JStr ''x''), (''help'', JArr [''h1''])]\<rparr> = Inl TypeError"
    by simp
  from extractFromTest_contract [of "\<lparr>name = ''t1'', properties =
      [(''author'', JStr ''me''), (''timeout'', JStr ''5''), (''help'', JArr [''h1''])]\<rparr>"] ns
  obtain obj where obj: "extractFromTest \<lparr>name = ''t1'', properties =
      [(''author'', JStr ''me''), (''timeout'', JStr ''5''), (''help'', JArr [''h1''])]\<rparr> = Inr obj"
    by auto
  have 2: "extractFromTest \<lparr>name = ''t1'', properties =
      [(''author'', JStr ''me''), (''timeout'', JStr ''5''), (''help'', JArr [''h1''])]\<rparr>
     = Inr [(''help'', JArr [''h1'']), (''author'', JStr ''me'')]"
    by code_simp
  from 1 2 show ?thesis by simp
qed

text \<open>
  C2 does not hold of every test record: on a record whose properties are
  \<^verbatim>\<open>{hasOwnProperty: "x", help: ["h1"]}\<close> the extractor has an error result.
\<close>

theorem extractFromTest_throws_counterexample:
  "extractFromTest \<lparr>name = ''t1'', properties =
      [(''hasOwnProperty'', JStr ''x''), (''help'', JArr [''h1''])]\<rparr> = Inl TypeError"
  by code_simp

subsection \<open>validateCache\<close>

lemma type_check_False: "type_check v = False"
  by (simp add: type_check_def)

lemma validateCache_loop:
  "validateCache md c =
     (case fst (validate_loop md c) of
        Inl e \<Rightarrow> Inl e
      | Inr ok \<Rightarrow> Inr (ok \<and> snd (validate_loop md c) = []),
      snd (validate_loop md c))"
  by (cases "validate_loop md c")
    (auto simp: validateCache_def split: sum.splits list.splits)

lemma all_from_none: "n \<le> i \<Longrightarrow> (\<forall>j. i \<le> j \<and> j < (n::nat) \<longrightarrow> P j) = True"
proof -
  assume n: "n \<le> i"
  have "P j" if "i \<le> j \<and> j < n" for j
  proof -
    from that n have False by linarith
    then show ?thesis ..
  qed
  then show ?thesis by blast
qed


lemma all_from_step:
  assumes "i < (n::nat)"
  shows "(\<forall>j. i \<le> j \<and> j < n \<longrightarrow> P j) = (P i \<and> (\<forall>j. Suc i \<le> j \<and> j < n \<longrightarrow> P j))"
proof (intro iffI conjI)
  assume a: "\<forall>j. i \<le> j \<and> j < n \<longrightarrow> P j"
  from a assms show "P i" by blast
  have "P j" if "Suc i \<le> j \<and> j < n" for j
  proof -
    from that have "i \<le> j \<and> j < n" by linarith
    with a show ?thesis by blast
  qed
  then show "\<forall>j. Suc i \<le> j \<and> j < n \<longrightarrow> P j" by blast
next
  assume b: "P i \<and> (\<forall>j. Suc i \<le> j \<and> j < n \<longrightarrow> P j)"
  then have a: "\<forall>j. Suc i \<le> j \<and> j < n \<longrightarrow> P j" and pi: "P i" by blast+
  have "P j" if "i \<le> j \<and> j < n" for j
  proof (cases "j = i")
    case True
    with pi show ?thesis by simp
  next
    case False
    with that have "Suc i \<le> j \<and> j < n" by linarith
    with a show ?thesis by blast
  qed
  then show "\<forall>j. i \<le> j \<and> j < n \<longrightarrow> P j" by blast
qed

lemma index_loop_arrays:
  "length xs = length ys \<Longrightarrow>
   index_loop (JArr xs) (JArr ys) i = (\<forall>j. i \<le> j \<and> j < length xs \<longrightarrow> xs ! j = ys ! j)"
proof (induction "length xs - i" arbitrary: i)
  case 0
  then have le: "length xs \<le> i" by simp
  have "index_loop (JArr xs) (JArr ys) i = True"
    using le by (subst index_loop.simps) simp
  then show ?case by (simp only: all_from_none [OF le])
next
  case (Suc d)
  then have lt: "i < length xs" and d: "d = length xs - Suc i" by simp_all
  have "index_loop (JArr xs) (JArr ys) i =
      (xs ! i = ys ! i \<and> index_loop (JArr xs) (JArr ys) (Suc i))"
    using lt Suc.prems by (subst index_loop.simps) simp
  also have "\<dots> = (xs ! i = ys ! i \<and> (\<forall>j. Suc i \<le> j \<and> j < length xs \<longrightarrow> xs ! j = ys ! j))"
    by (simp only: Suc.hyps(1) [OF d Suc.prems])
  also have "\<dots> = (\<forall>j. i \<le> j \<and> j < length xs \<longrightarrow> xs ! j = ys ! j)"
    by (rule all_from_step [OF lt, symmetric])
  finally show ?case .
qed

lemma index_loop_arrays_eq:
  "length xs = length ys \<Longrightarrow> index_loop (JArr xs) (JArr ys) 0 = (xs = ys)"
  by (simp add: index_loop_arrays list_eq_iff_nth_eq)

lemma meta_loop_sequences:
  "\<not> shadows_hasOwnProperty cs \<Longrightarrow> \<not> shadows_hasOwnProperty e \<Longrightarrow>
   \<forall>k \<in> set ks. is_sequence_at cs k \<Longrightarrow> \<forall>k \<in> set ks. is_sequence_at e k \<Longrightarrow>
   meta_loop cs e ks = Inr (\<forall>k \<in> set ks. map_of e k = map_of cs k)"
proof (induction ks)
  case Nil
  show ?case by simp
next
  case (Cons meta rest)
  then have IH: "meta_loop cs e rest = Inr (\<forall>k \<in> set rest. map_of e k = map_of cs k)"
    by simp
  from Cons.prems have s: "is_sequence_at cs meta" "is_sequence_at e meta" by simp_all
  note h = hasOwnProperty_builtin [OF Cons.prems(1)] hasOwnProperty_builtin [OF Cons.prems(2)]
  show ?case
  proof (cases "map_of cs meta")
    case None
    then show ?thesis using IH
      by (cases "map_of e meta") (auto simp: h js_and_def js_or_def)
  next
    case c: (Some cv)
    show ?thesis
    proof (cases "map_of e meta")
      case None
      then show ?thesis using c by (auto simp: h js_and_def js_or_def)
    next
      case e: (Some tv)
      from s c e obtain xs ys where v: "cv = JArr xs" "tv = JArr ys"
        by (cases cv; cases tv) (auto simp: is_sequence_at_def)
      show ?thesis using c e v IH
        by (auto simp: h js_and_def js_or_def type_check_False index_loop_arrays_eq)
    qed
  qed
qed

lemma shadows_js_delete:
  "\<not> shadows_hasOwnProperty c \<Longrightarrow> \<not> shadows_hasOwnProperty (js_delete c n)"
  by (simp add: shadows_hasOwnProperty_def map_of_js_delete)

lemma set_js_delete: "set (js_delete c n) \<subseteq> set c"
  by (auto simp: js_delete_filter)

lemma validate_loop_fst:
  "distinct (map fst md) \<Longrightarrow> \<not> shadows_hasOwnProperty c \<Longrightarrow>
   (\<And>n e cs. (n, e) \<in> set md \<Longrightarrow> map_of c n = Some cs \<Longrightarrow>
      meta_loop cs e metadataProperties = Inr (P cs e)) \<Longrightarrow>
   fst (validate_loop md c) =
     Inr (\<forall>(n, e) \<in> set md. case map_of c n of None \<Rightarrow> False | Some cs \<Rightarrow> P cs e)"
proof (induction md arbitrary: c)
  case Nil
  show ?case by simp
next
  case (Cons p md)
  obtain testName testMetadata where p: "p = (testName, testMetadata)" by (cases p)
  from Cons.prems p have d: "distinct (map fst md)" and fresh: "testName \<notin> fst ` set md"
    by auto
  have other: "map_of (js_delete c testName) n = map_of c n" if "(n, e) \<in> set md" for n e
    using that fresh by (force simp: map_of_js_delete)
  have ns: "\<not> shadows_hasOwnProperty (js_delete c testName)"
    using Cons.prems(2) by (rule shadows_js_delete)
  have "fst (validate_loop md (js_delete c testName)) =
     Inr (\<forall>(n, e) \<in> set md.
        case map_of (js_delete c testName) n of None \<Rightarrow> False | Some cs \<Rightarrow> P cs e)"
  proof (rule Cons.IH [OF d ns])
    fix n e cs assume a: "(n, e) \<in> set md" "map_of (js_delete c testName) n = Some cs"
    then have "map_of c n = Some cs" using other by simp
    with a(1) show "meta_loop cs e metadataProperties = Inr (P cs e)"
      using Cons.prems(3) [of n e cs] by simp
  qed
  then have IH: "fst (validate_loop md (js_delete c testName)) =
     Inr (\<forall>(n, e) \<in> set md. case map_of c n of None \<Rightarrow> False | Some cs \<Rightarrow> P cs e)"
    using other by (auto split: option.splits)
  note h = hasOwnProperty_builtin [OF Cons.prems(2)]
  show ?case
  proof (cases "map_of c testName")
    case None
    then show ?thesis using p by (simp add: h)
  next
    case (Some cachedT)
    have "meta_loop cachedT testMetadata metadataProperties = Inr (P cachedT testMetadata)"
      using Cons.prems(3) [of testName testMetadata cachedT] p Some by simp
    then show ?thesis using p IH Some by (simp add: Let_def h)
  qed
qed

lemma found_js_delete:
  "\<not> shadows_hasOwnProperty c \<Longrightarrow> fst e \<noteq> n \<Longrightarrow> found (js_delete c n) e = found c e"
  by (simp add: found_def hasOwnProperty_builtin shadows_js_delete map_of_js_delete)

lemma passes_js_delete:
  "\<not> shadows_hasOwnProperty c \<Longrightarrow> fst e \<noteq> n \<Longrightarrow> passes (js_delete c n) e = passes c e"
  by (simp add: passes_def found_js_delete map_of_js_delete)

lemma checked_js_delete:
  assumes "\<not> shadows_hasOwnProperty c" "n \<notin> fst ` set md"
  shows "checked md (js_delete c n) = checked md c"
proof -
  have ne: "fst e \<noteq> n" if "e \<in> set md" for e using that assms(2) by auto
  have t: "takeWhile (passes (js_delete c n)) md = takeWhile (passes c) md"
    by (rule takeWhile_cong) (simp_all add: passes_js_delete [OF assms(1)] ne)
  have f: "found (js_delete c n) (md ! k) = found c (md ! k)" if "k < length md" for k
    using that by (simp add: found_js_delete [OF assms(1)] ne)
  show ?thesis unfolding checked_def t by (auto simp: Let_def f)
qed

lemma checked_Cons:
  "checked (p # md) c =
     (if passes c p then Suc (checked md c) else if found c p then 1 else 0)"
  by (simp add: checked_def Let_def)

lemma passes_found: "passes c p \<Longrightarrow> found c p"
  by (simp add: passes_def)

lemma found_builtin: "found c p \<Longrightarrow> \<not> shadows_hasOwnProperty c \<and> map_of c (fst p) \<noteq> None"
  by (auto simp: found_def hasOwnProperty_def builtin_hasOwnProperty_def split: if_splits)

lemma not_found:
  "\<not> found c (n, e) \<Longrightarrow>
   hasOwnProperty c n = Inl TypeError \<or> hasOwnProperty c n = Inr False"
  by (auto simp: found_def hasOwnProperty_def)

lemma validate_loop_snd:
  "distinct (map fst md) \<Longrightarrow>
   snd (validate_loop md c) = filter (\<lambda>p. fst p \<notin> set (take (checked md c) (map fst md))) c"
proof (induction md arbitrary: c)
  case Nil
  show ?case by simp
next
  case (Cons p md)
  obtain testName testMetadata where p: "p = (testName, testMetadata)" by (cases p)
  from Cons.prems p have d: "distinct (map fst md)" and fresh: "testName \<notin> fst ` set md"
    by auto
  show ?case
  proof (cases "found c p")
    case False
    then have "hasOwnProperty c testName = Inl TypeError \<or> hasOwnProperty c testName = Inr False"
      unfolding p by (rule not_found)
    moreover from False have "checked (p # md) c = 0"
      by (auto simp: checked_Cons dest: passes_found)
    ultimately show ?thesis using p by auto
  next
    case True
    from found_builtin [OF True] p obtain cachedT where
      ns: "\<not> shadows_hasOwnProperty c" and cachedT: "map_of c testName = Some cachedT"
      by auto
    from True p have h: "hasOwnProperty c testName = Inr True" by (simp add: found_def)
    show ?thesis
    proof (cases "passes c p")
      case False
      with True have k: "checked (p # md) c = 1" by (simp add: checked_Cons)
      from False True p cachedT
      have "meta_loop cachedT testMetadata metadataProperties \<noteq> Inr True"
        by (simp add: passes_def)
      then have "snd (validate_loop (p # md) c) = js_delete c testName"
        using p h cachedT
        by (cases "meta_loop cachedT testMetadata metadataProperties")
          (auto simp: Let_def)
      then show ?thesis unfolding k using p by (simp add: js_delete_filter)
    next
      case pass: True
      then have k: "checked (p # md) c = Suc (checked md c)" by (simp add: checked_Cons)
      from pass p cachedT
      have "meta_loop cachedT testMetadata metadataProperties = Inr True"
        by (simp add: passes_def)
      then have "snd (validate_loop (p # md) c) = snd (validate_loop md (js_delete c testName))"
        using p h cachedT by (simp add: Let_def)
      also have "\<dots> = filter (\<lambda>q. fst q \<notin> set (take (checked md c) (map fst md)))
                         (js_delete c testName)"
        unfolding Cons.IH [OF d] checked_js_delete [OF ns fresh] ..
      also have "\<dots> = filter (\<lambda>q. fst q \<notin> set (take (checked (p # md) c) (map fst (p # md)))) c"
        unfolding k using p by (auto simp: js_delete_filter intro: filter_cong)
      finally show ?thesis .
    qed
  qed
qed

lemma validate_loop_True:
  "distinct (map fst md) \<Longrightarrow>
   (fst (validate_loop md c) = Inr True) = list_all (passes c) md"
proof (induction md arbitrary: c)
  case Nil
  show ?case by simp
next
  case (Cons p md)
  obtain testName testMetadata where p: "p = (testName, testMetadata)" by (cases p)
  from Cons.prems p have d: "distinct (map fst md)" and fresh: "testName \<notin> fst ` set md"
    by auto
  show ?case
  proof (cases "found c p")
    case False
    then have "hasOwnProperty c testName = Inl TypeError \<or> hasOwnProperty c testName = Inr False"
      unfolding p by (rule not_found)
    moreover from False have "\<not> passes c p" by (auto dest: passes_found)
    ultimately show ?thesis using p by auto
  next
    case True
    from found_builtin [OF True] p obtain cachedT where
      ns: "\<not> shadows_hasOwnProperty c" and cachedT: "map_of c testName = Some cachedT"
      by auto
    from True p have h: "hasOwnProperty c testName = Inr True" by (simp add: found_def)
    show ?thesis
    proof (cases "passes c p")
      case False
      from False True p cachedT
      have "meta_loop cachedT testMetadata metadataProperties \<noteq> Inr True"
        by (simp add: passes_def)
      then have "fst (validate_loop (p # md) c) \<noteq> Inr True"
        using p h cachedT
        by (cases "meta_loop cachedT testMetadata metadataProperties")
          (auto simp: Let_def)
      then show ?thesis using False by simp
    next
      case pass: True
      from pass p cachedT
      have "meta_loop cachedT testMetadata metadataProperties = Inr True"
        by (simp add: passes_def)
      then have "fst (validate_loop (p # md) c) = fst (validate_loop md (js_delete c testName))"
        using p h cachedT by (simp add: Let_def)
      moreover have "passes (js_delete c testName) e = passes c e" if "e \<in> set md" for e
      proof -
        from that fresh have "fst e \<noteq> testName" by auto
        with ns show ?thesis by (rule passes_js_delete)
      qed
      then have "list_all (passes (js_delete c testName)) md = list_all (passes c) md"
        by (simp add: list_all_iff)
      ultimately show ?thesis using pass Cons.IH [OF d, of "js_delete c testName"] by simp
    qed
  qed
qed

lemma checked_all: "list_all (passes c) md \<Longrightarrow> checked md c = length md"
  by (induction md) (simp_all add: checked_Cons, simp add: checked_def)

lemma names_of_lookup:
  assumes "\<forall>(n, e) \<in> set md. case map_of c n of None \<Rightarrow> False | Some cs \<Rightarrow> P cs e"
  shows "fst ` set md \<subseteq> fst ` set c"
proof
  fix n assume "n \<in> fst ` set md"
  then obtain e where "(n, e) \<in> set md" by auto
  with assms have "map_of c n \<noteq> None" by (auto split: option.splits)
  then show "n \<in> fst ` set c" by (simp add: map_of_eq_None_iff)
qed


lemma validate_loop_complete:
  "fst (validate_loop md c) = Inr True \<Longrightarrow>
   snd (validate_loop md c) = filter (\<lambda>p. fst p \<notin> fst ` set md) c"
proof (induction md arbitrary: c)
  case Nil
  show ?case by simp
next
  case (Cons p md)
  obtain testName testMetadata where p: "p = (testName, testMetadata)" by (cases p)
  from Cons.prems p
  have step: "validate_loop (p # md) c = validate_loop md (js_delete c testName)"
    by (auto simp: Let_def split: sum.splits if_splits option.splits)
  with Cons.prems have "fst (validate_loop md (js_delete c testName)) = Inr True" by simp
  from Cons.IH [OF this] show ?case
    unfolding step using p by (auto simp: js_delete_filter intro: filter_cong)
qed

lemma index_loop_ab: "index_loop (JStr ''ab'') (JArr [''a'', ''b'']) 0"
  by code_simp

lemma index_loop_ba: "index_loop (JArr [''a'', ''b'']) (JStr ''ab'') 0"
  by code_simp

text \<open>
  C6. The condition \<^verbatim>\<open>! cachedTestMetadata[meta] instanceof Array\<close> is false for every
  cached value, so the \<^verbatim>\<open>return false\<close> under it is never taken: the loop over the
  recognized keys satisfies the equation of its body with that branch left out. A scalar
  is not an instance of \<^verbatim>\<open>Array\<close>, and yet the validator accepts the cached scalar
  \<^verbatim>\<open>"ab"\<close> against the extracted sequence \<^verbatim>\<open>["a", "b"]\<close>.
\<close>

theorem type_check_noop:
  "\<not> type_check cachedValue
   \<and> meta_loop cachedTestMetadata testMetadata (meta # rest) =
     (case js_and (hasOwnProperty cachedTestMetadata meta) (hasOwnProperty testMetadata meta) of
        Inl e \<Rightarrow> Inl e
      | Inr both \<Rightarrow>
          if both then
            (case (map_of cachedTestMetadata meta, map_of testMetadata meta) of
               (Some cachedValue, Some testValue) \<Rightarrow>
                 (if js_length cachedValue = js_length testValue then
                    (if index_loop cachedValue testValue 0
                     then meta_loop cachedTestMetadata testMetadata rest
                     else Inr False)
                  else Inr False)
             | _ \<Rightarrow> Inr False)
          else
            (case js_or (hasOwnProperty cachedTestMetadata meta)
                        (hasOwnProperty testMetadata meta) of
               Inl e \<Rightarrow> Inl e
             | Inr either \<Rightarrow>
                 if either then Inr False
                 else meta_loop cachedTestMetadata testMetadata rest))
   \<and> \<not> instanceof_Array (Inr (JStr ''ab''))
   \<and> validateCache [(''t1'', [(''help'', JArr [''a'', ''b''])])]
                     [(''t1'', [(''help'', JStr ''ab'')])] = (Inr True, [])"
proof -
  have a: "\<not> type_check cachedValue" by (simp add: type_check_False)
  have c: "validateCache [(''t1'', [(''help'', JArr [''a'', ''b''])])]
                     [(''t1'', [(''help'', JStr ''ab'')])] = (Inr True, [])"
    by code_simp
  have d: "\<not> instanceof_Array (Inr (JStr ''ab''))" by simp
  have b: "meta_loop cachedTestMetadata testMetadata (meta # rest) =
     (case js_and (hasOwnProperty cachedTestMetadata meta) (hasOwnProperty testMetadata meta) of
        Inl e \<Rightarrow> Inl e
      | Inr both \<Rightarrow>
          if both then
            (case (map_of cachedTestMetadata meta, map_of testMetadata meta) of
               (Some cachedValue, Some testValue) \<Rightarrow>
                 (if js_length cachedValue = js_length testValue then
                    (if index_loop cachedValue testValue 0
                     then meta_loop cachedTestMetadata testMetadata rest
                     else Inr False)
                  else Inr False)
             | _ \<Rightarrow> Inr False)
          else
            (case js_or (hasOwnProperty cachedTestMetadata meta)
                        (hasOwnProperty testMetadata meta) of
               Inl e \<Rightarrow> Inl e
             | Inr either \<Rightarrow>
                 if either then Inr False
                 else meta_loop cachedTestMetadata testMetadata rest))"
    by (cases "js_and (hasOwnProperty cachedTestMetadata meta) (hasOwnProperty testMetadata meta)";
        cases "map_of cachedTestMetadata meta"; cases "map_of testMetadata meta")
      (simp_all add: type_check_False)
  from a b d c show ?thesis by blast
qed

theorem type_check_noop_witness:
  "\<not> type_check (JStr ''ab'')
   \<and> meta_loop [(''help'', JStr ''ab'')] [(''help'', JArr [''a'', ''b''])] [''help''] = Inr True"
proof -
  have h: "js_and (hasOwnProperty [(''help'', JStr ''ab'')] ''help'')
                  (hasOwnProperty [(''help'', JArr [''a'', ''b''])] ''help'') = Inr True"
    by code_simp
  show ?thesis
    using type_check_noop [where cachedValue = "JStr ''ab''"
        and cachedTestMetadata = "[(''help'', JStr ''ab'')]"
        and testMetadata = "[(''help'', JArr [''a'', ''b''])]" and meta = "''help''" and rest = "[]"]
    unfolding h by (simp add: index_loop_ab)
qed

text \<open>
  C7. The validator returns the cached mapping as its deletions have left it. An entry
  of the cached mapping is deleted when the loop over the extracted names reaches its
  name and finds it, before the two sub-mappings are compared: what is left is the
  cached mapping without the entries of the first \<open>checked md c\<close> extracted names, no
  fewer and no more, also when the validator returns false or throws. When the loop
  runs to its end these are all the extracted names. The final check is that nothing is
  left: the validator returns true exactly when the loop ran to its end and the cached
  mapping is then empty, so the cached mapping is empty whenever the validator returns
  true.
\<close>

theorem validateCache_drains:
  "validateCache md c =
     (case fst (validate_loop md c) of
        Inl e \<Rightarrow> Inl e
      | Inr ok \<Rightarrow> Inr (ok \<and> snd (validate_loop md c) = []),
      snd (validate_loop md c))
   \<and> (distinct (map fst md) \<longrightarrow>
        snd (validateCache md c) =
          filter (\<lambda>p. fst p \<notin> set (take (checked md c) (map fst md))) c
        \<and> (fst (validate_loop md c) = Inr True) = list_all (passes c) md)
   \<and> (fst (validate_loop md c) = Inr True \<longrightarrow>
        snd (validateCache md c) = filter (\<lambda>p. fst p \<notin> fst ` set md) c)
   \<and> (fst (validateCache md c) = Inr True) =
        (fst (validate_loop md c) = Inr True \<and> snd (validateCache md c) = [])
   \<and> (fst (validateCache md c) = Inr True \<longrightarrow> snd (validateCache md c) = [])"
proof -
  have s: "snd (validateCache md c) = snd (validate_loop md c)"
    by (simp add: validateCache_loop)
  have f: "(fst (validateCache md c) = Inr True) =
        (fst (validate_loop md c) = Inr True \<and> snd (validate_loop md c) = [])"
    by (cases "fst (validate_loop md c)") (auto simp: validateCache_loop)
  have 1: "validateCache md c =
     (case fst (validate_loop md c) of
        Inl e \<Rightarrow> Inl e
      | Inr ok \<Rightarrow> Inr (ok \<and> snd (validate_loop md c) = []),
      snd (validate_loop md c))"
    by (rule validateCache_loop)
  have 2: "snd (validateCache md c) =
          filter (\<lambda>p. fst p \<notin> set (take (checked md c) (map fst md))) c
        \<and> (fst (validate_loop md c) = Inr True) = list_all (passes c) md"
    if "distinct (map fst md)"
    unfolding s using validate_loop_snd [OF that] validate_loop_True [OF that] by simp
  have 3: "snd (validateCache md c) = filter (\<lambda>p. fst p \<notin> fst ` set md) c"
    if "fst (validate_loop md c) = Inr True"
    unfolding s using that by (rule validate_loop_complete)
  from 1 2 3 f s show ?thesis by simp
qed

theorem validateCache_drains_witness:
  "validateCache
     [(''t1'', [(''help'', JArr [''h1''])]), (''t2'', [(''help'', JArr [''h2''])]), (''t3'', [])]
     [(''t3'', []), (''t2'', [(''help'', JArr [''other''])]), (''t1'', [(''help'', JArr [''h1''])]),
      (''t4'', [])]
     = (Inr False, [(''t3'', []), (''t4'', [])])
   \<and> checked
     [(''t1'', [(''help'', JArr [''h1''])]), (''t2'', [(''help'', JArr [''h2''])]), (''t3'', [])]
     [(''t3'', []), (''t2'', [(''help'', JArr [''other''])]), (''t1'', [(''help'', JArr [''h1''])]),
      (''t4'', [])] = 2
   \<and> validateCache [(''t1'', [(''help'', JArr [''h1''])]), (''t2'', [])]
                    [(''t2'', []), (''t1'', [(''help'', JArr [''h1''])])] = (Inr True, [])"
proof -
  let ?md = "[(''t1'', [(''help'', JArr [''h1''])]), (''t2'', [(''help'', JArr [''h2''])]),
              (''t3'', [])]"
  let ?c = "[(''t3'', []), (''t2'', [(''help'', JArr [''other''])]),
             (''t1'', [(''help'', JArr [''h1''])]), (''t4'', [])]"
  let ?md' = "[(''t1'', [(''help'', JArr [''h1''])]), (''t2'', [])]"
  let ?c' = "[(''t2'', []), (''t1'', [(''help'', JArr [''h1''])])]"
  have k: "checked ?md ?c = 2" by code_simp
  have l: "fst (validate_loop ?md ?c) = Inr False" by code_simp
  have d: "distinct (map fst ?md)" by simp
  have l': "fst (validate_loop ?md' ?c') = Inr True" by code_simp
  from validateCache_drains [of ?md ?c] d
  have "snd (validateCache ?md ?c) =
      filter (\<lambda>p. fst p \<notin> set (take (checked ?md ?c) (map fst ?md))) ?c"
    by blast
  then have a: "snd (validateCache ?md ?c) = [(''t3'', []), (''t4'', [])]"
    unfolding k by (simp add: numeral_2_eq_2)
  from validateCache_drains [of ?md ?c] l
  have b: "fst (validateCache ?md ?c) = Inr False"
    by (simp add: validateCache_loop)
  from validateCache_drains [of ?md' ?c'] l'
  have "snd (validateCache ?md' ?c') = filter (\<lambda>p. fst p \<notin> fst ` set ?md') ?c'"
    by blast
  then have a': "snd (validateCache ?md' ?c') = []" by simp
  from validateCache_drains [of ?md' ?c'] l' a'
  have b': "fst (validateCache ?md' ?c') = Inr True" by simp
  from a b a' b' k show ?thesis by (simp add: prod_eq_iff)
qed

text \<open>
  C1, as the code has it. Take an extracted mapping (an object, so its names are distinct) and a
  cached mapping in both of which every value of a recognized key is a sequence of
  strings, and in which no own property named \<^verbatim>\<open>hasOwnProperty\<close> stands where the
  validator calls the method: not in the cached mapping, and in no sub-mapping of either
  mapping. Then the validator returns, and returns true exactly when the two mappings
  have the same test names and, for each test name and each recognized key, the two
  sub-mappings both lack the key or both have it with equal sequences.
\<close>

theorem validateCache_iff_deeply_equal:
  assumes "distinct (map fst md)" "recognized_sequences md" "recognized_sequences c"
    and "builtin_entries md" "\<not> shadows_hasOwnProperty c" "builtin_entries c"
  shows "fst (validateCache md c) = Inr (deeply_equal_restricted md c)"
proof -
  let ?P = "\<lambda>cs e. \<forall>k \<in> set metadataProperties. map_of e k = map_of cs k"
  let ?Q = "\<forall>(n, e) \<in> set md. case map_of c n of None \<Rightarrow> False | Some cs \<Rightarrow> ?P cs e"
  have entry: "meta_loop cs e metadataProperties = Inr (?P cs e)"
    if "(n, e) \<in> set md" "map_of c n = Some cs" for n e cs
  proof -
    from that(2) have in_c: "(n, cs) \<in> set c" by (rule map_of_SomeD)
    with assms(3) have 1: "\<forall>k \<in> set metadataProperties. is_sequence_at cs k"
      by (auto simp: recognized_sequences_def)
    from that(1) assms(2) have 2: "\<forall>k \<in> set metadataProperties. is_sequence_at e k"
      by (auto simp: recognized_sequences_def)
    from in_c assms(6) have 3: "\<not> shadows_hasOwnProperty cs"
      by (auto simp: builtin_entries_def)
    from that(1) assms(4) have 4: "\<not> shadows_hasOwnProperty e"
      by (auto simp: builtin_entries_def)
    from 3 4 1 2 show ?thesis by (rule meta_loop_sequences)
  qed
  have A: "fst (validate_loop md c) = Inr ?Q"
    using assms(1) assms(5) entry by (rule validate_loop_fst)
  have B: "fst ` set md \<subseteq> fst ` set c" if "?Q"
    using that by (rule names_of_lookup)
  have C: "snd (validate_loop md c) = filter (\<lambda>p. fst p \<notin> fst ` set md) c" if "?Q"
    using that A by (intro validate_loop_complete) simp
  have E: "(filter (\<lambda>p. fst p \<notin> fst ` set md) c = []) = (fst ` set c \<subseteq> fst ` set md)"
    by (auto simp: filter_empty_conv)
  have "fst (validateCache md c) = Inr (?Q \<and> snd (validate_loop md c) = [])"
    by (simp add: validateCache_loop A)
  also have "(?Q \<and> snd (validate_loop md c) = []) = (?Q \<and> fst ` set c \<subseteq> fst ` set md)"
    using C E by auto
  also have "\<dots> = (fst ` set md = fst ` set c \<and> ?Q)"
    using B by blast
  finally show ?thesis
    by (simp add: deeply_equal_restricted_def)
qed

theorem validateCache_iff_deeply_equal_witness:
  "fst (validateCache [(''t1'', [(''help'', JArr [''h1''])]), (''t2'', [(''assert'', JArr [''a1'', ''a2''])])]
                 [(''t2'', [(''assert'', JArr [''a1'', ''a2''])]), (''t1'', [(''help'', JArr [''h1''])])])
     = Inr True
   \<and> fst (validateCache [(''t1'', [(''help'', JArr [''h1''])])]
                 [(''t1'', [(''help'', JArr [''h1'', ''h2''])])]) = Inr False"
proof -
  have a: "deeply_equal_restricted
       [(''t1'', [(''help'', JArr [''h1''])]), (''t2'', [(''assert'', JArr [''a1'', ''a2''])])]
       [(''t2'', [(''assert'', JArr [''a1'', ''a2''])]), (''t1'', [(''help'', JArr [''h1''])])]"
    by (auto simp: deeply_equal_restricted_def metadataProperties_def)
  have b: "\<not> deeply_equal_restricted [(''t1'', [(''help'', JArr [''h1''])])]
                 [(''t1'', [(''help'', JArr [''h1'', ''h2''])])]"
    by (simp add: deeply_equal_restricted_def metadataProperties_def)
  have c: "fst (validateCache [(''t1'', [(''help'', JArr [''h1''])]), (''t2'', [(''assert'', JArr [''a1'', ''a2''])])]
                 [(''t2'', [(''assert'', JArr [''a1'', ''a2''])]), (''t1'', [(''help'', JArr [''h1''])])])
       = Inr (deeply_equal_restricted
       [(''t1'', [(''help'', JArr [''h1''])]), (''t2'', [(''assert'', JArr [''a1'', ''a2''])])]
       [(''t2'', [(''assert'', JArr [''a1'', ''a2''])]), (''t1'', [(''help'', JArr [''h1''])])])"
    by (rule validateCache_iff_deeply_equal)
      (simp_all add: recognized_sequences_def is_sequence_at_def metadataProperties_def
        builtin_entries_def shadows_hasOwnProperty_def)
  have d: "fst (validateCache [(''t1'', [(''help'', JArr [''h1''])])]
                 [(''t1'', [(''help'', JArr [''h1'', ''h2''])])])
       = Inr (deeply_equal_restricted [(''t1'', [(''help'', JArr [''h1''])])]
                 [(''t1'', [(''help'', JArr [''h1'', ''h2''])])])"
    by (rule validateCache_iff_deeply_equal)
      (simp_all add: recognized_sequences_def is_sequence_at_def metadataProperties_def
        builtin_entries_def shadows_hasOwnProperty_def)
  from a b c d show ?thesis by simp
qed

text \<open>
  C1 does not hold of every value: against the extracted scalar \<^verbatim>\<open>"ab"\<close> the validator
  accepts the cached sequence \<^verbatim>\<open>["a", "b"]\<close>, which has the same length and at each index
  the same one-character string, although the two values are not equal.
\<close>

theorem validateCache_scalar_counterexample:
  "fst (validateCache [(''t1'', [(''help'', JStr ''ab'')])]
                      [(''t1'', [(''help'', JArr [''a'', ''b''])])]) = Inr True
   \<and> \<not> deeply_equal_restricted [(''t1'', [(''help'', JStr ''ab'')])]
                      [(''t1'', [(''help'', JArr [''a'', ''b''])])]"
proof -
  have a: "fst (validateCache [(''t1'', [(''help'', JStr ''ab'')])]
                      [(''t1'', [(''help'', JArr [''a'', ''b''])])]) = Inr True"
    by code_simp
  have b: "\<not> deeply_equal_restricted [(''t1'', [(''help'', JStr ''ab'')])]
                      [(''t1'', [(''help'', JArr [''a'', ''b''])])]"
    by (simp add: deeply_equal_restricted_def metadataProperties_def)
  from a b show ?thesis ..
qed

text \<open>
  Nor does it hold where an own property named \<^verbatim>\<open>hasOwnProperty\<close> stands in the way of
  the method: with the cached sub-mapping \<^verbatim>\<open>{help: ["h"], hasOwnProperty: ["x"]}\<close> the
  validator throws, after it has deleted the cached entry, although the two mappings
  agree on the recognized keys; and with the cached mapping
  \<^verbatim>\<open>{hasOwnProperty: {}, t1: {help: ["h"]}}\<close> it throws before it has deleted anything.
\<close>

lemma validateCache_throws:
  "validateCache [(''t1'', [(''help'', JArr [''h''])])]
                 [(''t1'', [(''help'', JArr [''h'']), (''hasOwnProperty'', JArr [''x''])])]
     = (Inl TypeError, [])
   \<and> deeply_equal_restricted [(''t1'', [(''help'', JArr [''h''])])]
                 [(''t1'', [(''help'', JArr [''h'']), (''hasOwnProperty'', JArr [''x''])])]
   \<and> validateCache [(''t1'', [(''help'', JArr [''h''])])]
                 [(''hasOwnProperty'', []), (''t1'', [(''help'', JArr [''h''])])]
     = (Inl TypeError, [(''hasOwnProperty'', []), (''t1'', [(''help'', JArr [''h''])])])"
proof -
  have a: "validateCache [(''t1'', [(''help'', JArr [''h''])])]
                 [(''t1'', [(''help'', JArr [''h'']), (''hasOwnProperty'', JArr [''x''])])]
     = (Inl TypeError, [])"
    by code_simp
  have b: "deeply_equal_restricted [(''t1'', [(''help'', JArr [''h''])])]
                 [(''t1'', [(''help'', JArr [''h'']), (''hasOwnProperty'', JArr [''x''])])]"
    by (simp add: deeply_equal_restricted_def metadataProperties_def)
  have c: "validateCache [(''t1'', [(''help'', JArr [''h''])])]
                 [(''hasOwnProperty'', []), (''t1'', [(''help'', JArr [''h''])])]
     = (Inl TypeError, [(''hasOwnProperty'', []), (''t1'', [(''help'', JArr [''h''])])])"
    by code_simp
  from a b c show ?thesis by simp
qed

subsection \<open>process\<close>

lemma place_inserts:
  "\<exists>before after. doc = before @ after \<and> place e doc = before @ e # after"
proof -
  have ins: "insertBefore_id doc e i = Some doc' \<Longrightarrow>
      \<exists>before after. doc = before @ after \<and> doc' = before @ e # after" for i doc'
  proof (induction doc arbitrary: doc')
    case Nil
    then show ?case by simp
  next
    case (Cons n ns)
    show ?case
    proof (cases "has_id i n")
      case True
      with Cons.prems have "doc' = [] @ e # n # ns" by simp
      then show ?thesis by (metis append_Nil)
    next
      case False
      with Cons.prems obtain ns' where ns': "insertBefore_id ns e i = Some ns'" "doc' = n # ns'"
        by auto
      from Cons.IH [OF ns'(1)] obtain before after where
        "ns = before @ after" "ns' = before @ e # after" by blast
      then have "n # ns = (n # before) @ after \<and> doc' = (n # before) @ e # after"
        using ns'(2) by simp
      then show ?thesis by blast
    qed
  qed
  show ?thesis
  proof (cases "insertBefore_id doc e ''summary''")
    case None
    then have "doc = doc @ [] \<and> place e doc = doc @ e # []" by (simp add: place_def)
    then show ?thesis by blast
  next
    case (Some doc')
    with ins [OF Some] show ?thesis by (simp add: place_def)
  qed
qed

lemma message_element_eq:
  "message_element message messageClass =
     Element ''p'' [(''id'', ''metadata_issue''), (''class'', messageClass)]
       [Text message,
        Element ''a'' [(''href'', ''#''), (''onclick'', ''metadata_generator.addSourceElement()'')]
          [Text ''Click for source code.'']]"
  by (simp add: message_element_def createElement_def appendText_def)

lemma error_element_eq:
  "error_element message = Element ''p'' [(''class'', ''error'')] [Text message]"
  by (simp add: error_element_def createElement_def appendText_def)

lemma metadata_error [simp]: "metadata (error m s) = metadata s"
  by (simp add: error_def)

lemma cached_error [simp]: "cached_metadata (error m s) = cached_metadata s"
  by (simp add: error_def)

lemma document_error: "document (error m s) = place (error_element m) (document s)"
  by (simp add: error_def)

lemma truthy_js_get:
  "truthy (js_get md k) = (map_of md k \<noteq> None \<or> k \<in> set Object_prototype_properties)"
  by (cases "map_of md k") (simp_all add: js_get_def)

lemma process_test_taken:
  "truthy (js_get (metadata s) (name t)) \<Longrightarrow>
   process_test t s = (None, error (''Duplicate test name: '' @ name t) s)"
  by (simp add: process_test_def)

lemma process_test_throws:
  "\<not> truthy (js_get (metadata s) (name t)) \<Longrightarrow> extractFromTest t = Inl e \<Longrightarrow>
   process_test t s = (Some e, s)"
  by (simp add: process_test_def)

lemma process_test_records:
  "\<not> truthy (js_get (metadata s) (name t)) \<Longrightarrow> extractFromTest t = Inr testMetadata \<Longrightarrow>
   process_test t s = (None, s\<lparr>metadata := js_put (metadata s) (name t) testMetadata\<rparr>)"
  by (simp add: process_test_def)

lemma process_test_cases:
  obtains (taken) "truthy (js_get (metadata s) (name t))"
      "process_test t s = (None, error (''Duplicate test name: '' @ name t) s)"
  | (throws) e where "\<not> truthy (js_get (metadata s) (name t))" "extractFromTest t = Inl e"
      "process_test t s = (Some e, s)"
  | (records) testMetadata where "\<not> truthy (js_get (metadata s) (name t))"
      "extractFromTest t = Inr testMetadata"
      "process_test t s = (None, s\<lparr>metadata := js_put (metadata s) (name t) testMetadata\<rparr>)"
proof (cases "truthy (js_get (metadata s) (name t))")
  case True
  then show ?thesis using process_test_taken taken by blast
next
  case False
  then show ?thesis
    by (cases "extractFromTest t") (use process_test_throws throws process_test_records records in blast)+
qed

lemma extract_tests_Cons:
  "extract_tests (t # tests) s =
     (if fst (process_test t s) = None then extract_tests tests (snd (process_test t s))
      else process_test t s)"
  by (cases "process_test t s") (auto split: option.splits)

lemma cached_process_test: "cached_metadata (snd (process_test t s)) = cached_metadata s"
  by (cases t s rule: process_test_cases) simp_all

lemma cached_extract_tests: "cached_metadata (snd (extract_tests tests s)) = cached_metadata s"
proof (induction tests arbitrary: s)
  case Nil
  show ?case by simp
next
  case (Cons t tests)
  show ?case
    unfolding extract_tests_Cons using Cons.IH [of "snd (process_test t s)"]
    by (simp add: cached_process_test)
qed

lemma metadata_process:
  "metadata (snd (process tests s)) = metadata (snd (extract_tests tests s))"
  by (cases "extract_tests tests s")
    (auto simp: process_def check_cache_def Let_def split: option.splits prod.splits sum.splits)

lemma process_test_prototype_name:
  "name t \<in> set Object_prototype_properties \<Longrightarrow>
   process_test t s = (None, error (''Duplicate test name: '' @ name t) s)"
  by (simp add: process_test_def truthy_js_get)

lemma map_of_process_test:
  "map_of (metadata (snd (process_test t s))) n =
     (if n = name t \<and> \<not> truthy (js_get (metadata s) n) then
        (case extractFromTest t of
           Inl e \<Rightarrow> map_of (metadata s) n
         | Inr testMetadata \<Rightarrow> Some testMetadata)
      else map_of (metadata s) n)"
  by (cases t s rule: process_test_cases) (auto simp: map_of_js_put)

lemma map_of_extract_tests_prototype_name:
  "n \<in> set Object_prototype_properties \<Longrightarrow>
   map_of (metadata (snd (extract_tests tests s))) n = map_of (metadata s) n"
proof (induction tests arbitrary: s)
  case Nil
  show ?case by simp
next
  case (Cons t tests)
  then show ?case
    unfolding extract_tests_Cons by (simp add: map_of_process_test truthy_js_get)
qed

lemma process_test_keeps:
  "map_of (metadata s) n = Some v \<Longrightarrow> map_of (metadata (snd (process_test t s))) n = Some v"
  by (simp add: map_of_process_test truthy_js_get)

lemma extract_tests_keeps:
  "map_of (metadata s) n = Some v \<Longrightarrow>
   map_of (metadata (snd (extract_tests tests s))) n = Some v"
proof (induction tests arbitrary: s)
  case Nil
  then show ?case by simp
next
  case (Cons t tests)
  from Cons.prems have "map_of (metadata (snd (process_test t s))) n = Some v"
    by (rule process_test_keeps)
  then show ?case unfolding extract_tests_Cons by (simp add: Cons.IH)
qed

lemma truthy_kept:
  assumes "truthy (js_get (metadata s) n)"
  shows "truthy (js_get (metadata (snd (extract_tests tests s))) n)"
proof (cases "map_of (metadata s) n")
  case None
  with assms show ?thesis by (simp add: truthy_js_get)
next
  case (Some v)
  then show ?thesis using extract_tests_keeps [OF Some] by (simp add: truthy_js_get)
qed

lemma truthy_after_process_test:
  "fst (process_test t s) = None \<Longrightarrow>
   truthy (js_get (metadata (snd (process_test t s))) (name t))"
  by (cases t s rule: process_test_cases) (simp_all add: truthy_js_get map_of_js_put)

lemma extract_tests_takes_names:
  "fst (extract_tests tests s) = None \<Longrightarrow> t \<in> set tests \<Longrightarrow>
   truthy (js_get (metadata (snd (extract_tests tests s))) (name t))"
proof (induction tests arbitrary: s)
  case Nil
  then show ?case by simp
next
  case (Cons u tests)
  from Cons.prems(1) have u: "fst (process_test u s) = None"
    and rest: "fst (extract_tests tests (snd (process_test u s))) = None"
    unfolding extract_tests_Cons by (auto split: if_splits)
  show ?case
  proof (cases "t = u")
    case True
    then show ?thesis
      unfolding extract_tests_Cons using truthy_kept [OF truthy_after_process_test [OF u]] u
      by simp
  next
    case False
    with Cons.prems(2) have "t \<in> set tests" by simp
    from Cons.IH [OF rest this] u show ?thesis unfolding extract_tests_Cons by simp
  qed
qed

lemma extract_tests_all_taken:
  "\<forall>t \<in> set tests. truthy (js_get (metadata s) (name t)) \<Longrightarrow>
   extract_tests tests s =
     (None, s\<lparr>document := report_duplicates (map name tests) (document s)\<rparr>)"
proof (induction tests arbitrary: s)
  case Nil
  show ?case by (simp add: report_duplicates_def)
next
  case (Cons t tests)
  then have t: "process_test t s = (None, error (''Duplicate test name: '' @ name t) s)"
    by (simp add: process_test_taken)
  have "\<forall>u \<in> set tests.
      truthy (js_get (metadata (error (''Duplicate test name: '' @ name t) s)) (name u))"
    using Cons.prems by simp
  from Cons.IH [OF this] show ?case
    by (simp add: t report_duplicates_def error_def)
qed

lemma extract_tests_again:
  "metadata s' = metadata (snd (extract_tests tests s)) \<Longrightarrow>
   metadata (snd (extract_tests tests s')) = metadata s'"
proof (induction tests arbitrary: s s')
  case Nil
  show ?case by simp
next
  case (Cons t tests)
  show ?case
  proof (cases t s rule: process_test_cases)
    case taken
    let ?s1 = "error (''Duplicate test name: '' @ name t) s"
    let ?s1' = "error (''Duplicate test name: '' @ name t) s'"
    from taken have run: "extract_tests (t # tests) s = extract_tests tests ?s1" by simp
    from truthy_kept [OF taken(1), of "t # tests"] Cons.prems
    have "truthy (js_get (metadata s') (name t))" by simp
    then have t': "process_test t s' = (None, ?s1')" by (rule process_test_taken)
    have "metadata ?s1' = metadata (snd (extract_tests tests ?s1))"
      using Cons.prems run by simp
    from Cons.IH [OF this] show ?thesis by (simp add: t')
  next
    case (throws e)
    then have "metadata s' = metadata s" using Cons.prems by simp
    with throws have "process_test t s' = (Some e, s')" by (simp add: process_test_throws)
    then show ?thesis by simp
  next
    case (records testMetadata)
    let ?s1 = "s\<lparr>metadata := js_put (metadata s) (name t) testMetadata\<rparr>"
    let ?s1' = "error (''Duplicate test name: '' @ name t) s'"
    from records have run: "extract_tests (t # tests) s = extract_tests tests ?s1" by simp
    have "truthy (js_get (metadata ?s1) (name t))" by (simp add: truthy_js_get map_of_js_put)
    from truthy_kept [OF this, of tests] Cons.prems run
    have "truthy (js_get (metadata s') (name t))" by simp
    then have t': "process_test t s' = (None, ?s1')" by (rule process_test_taken)
    have "metadata ?s1' = metadata (snd (extract_tests tests ?s1))"
      using Cons.prems run by simp
    from Cons.IH [OF this] show ?thesis by (simp add: t')
  qed
qed

lemma extractFromTest_builtin:
  "extractFromTest t = Inr obj \<Longrightarrow> \<not> shadows_hasOwnProperty obj"
  unfolding extractFromTest_def shadows_hasOwnProperty_def
  by (drule map_of_extractFromTest_loop [where k = "''hasOwnProperty''"])
    (simp add: metadataProperties_def)

lemma extractFromTest_returns:
  "\<not> shadows_hasOwnProperty (properties t) \<Longrightarrow> \<exists>obj. extractFromTest t = Inr obj"
  unfolding extractFromTest_def by (rule extractFromTest_loop_returns)

lemma extract_tests_returns:
  "\<forall>t \<in> set tests. \<not> shadows_hasOwnProperty (properties t) \<Longrightarrow>
   fst (extract_tests tests s) = None"
proof (induction tests arbitrary: s)
  case Nil
  show ?case by simp
next
  case (Cons t tests)
  from Cons.prems extractFromTest_returns [of t] have "fst (process_test t s) = None"
    by (cases t s rule: process_test_cases) auto
  with Cons show ?case unfolding extract_tests_Cons by simp
qed

lemma builtin_entries_js_put:
  "builtin_entries m \<Longrightarrow> \<not> shadows_hasOwnProperty sub \<Longrightarrow> builtin_entries (js_put m n sub)"
  using set_js_put [of m n sub] by (auto simp: builtin_entries_def)

lemma builtin_entries_process_test:
  "builtin_entries (metadata s) \<Longrightarrow> builtin_entries (metadata (snd (process_test t s)))"
  by (cases t s rule: process_test_cases)
    (simp_all add: builtin_entries_js_put extractFromTest_builtin)

lemma builtin_entries_extract_tests:
  "builtin_entries (metadata s) \<Longrightarrow> builtin_entries (metadata (snd (extract_tests tests s)))"
proof (induction tests arbitrary: s)
  case Nil
  then show ?case by simp
next
  case (Cons t tests)
  from Cons.prems have "builtin_entries (metadata (snd (process_test t s)))"
    by (rule builtin_entries_process_test)
  with Cons.IH Cons.prems show ?case unfolding extract_tests_Cons by simp
qed

lemma meta_loop_returns:
  "\<not> shadows_hasOwnProperty cs \<Longrightarrow> \<not> shadows_hasOwnProperty e \<Longrightarrow>
   \<exists>b. meta_loop cs e ks = Inr b"
  by (induction ks)
    (auto simp: hasOwnProperty_builtin js_and_def js_or_def split: option.splits)

lemma builtin_entries_js_delete:
  "builtin_entries c \<Longrightarrow> builtin_entries (js_delete c n)"
  using set_js_delete [of c n] by (auto simp: builtin_entries_def)

lemma validate_loop_returns:
  "\<not> shadows_hasOwnProperty c \<Longrightarrow> builtin_entries c \<Longrightarrow> builtin_entries md \<Longrightarrow>
   \<exists>b. fst (validate_loop md c) = Inr b"
proof (induction md arbitrary: c)
  case Nil
  have "fst (validate_loop [] c) = Inr True" by simp
  then show ?case by blast
next
  case (Cons p md)
  obtain testName testMetadata where p: "p = (testName, testMetadata)" by (cases p)
  note h = hasOwnProperty_builtin [OF Cons.prems(1)]
  from Cons.prems(3) p have e: "\<not> shadows_hasOwnProperty testMetadata"
    and md: "builtin_entries md"
    by (auto simp: builtin_entries_def)
  show ?case
  proof (cases "map_of c testName")
    case None
    then have "fst (validate_loop (p # md) c) = Inr False" using p by (simp add: h)
    then show ?thesis by blast
  next
    case (Some cachedT)
    then have "(testName, cachedT) \<in> set c" by (rule map_of_SomeD)
    with Cons.prems(2) have "\<not> shadows_hasOwnProperty cachedT"
      by (auto simp: builtin_entries_def)
    from meta_loop_returns [OF this e] obtain b where
      b: "meta_loop cachedT testMetadata metadataProperties = Inr b" by blast
    from Cons.IH [OF shadows_js_delete [OF Cons.prems(1)]
        builtin_entries_js_delete [OF Cons.prems(2)] md]
    obtain b' where "fst (validate_loop md (js_delete c testName)) = Inr b'" by blast
    then have "fst (validate_loop (p # md) c) = Inr (b \<and> b')"
      using p Some b by (simp add: h Let_def)
    then show ?thesis by blast
  qed
qed

lemma validateCache_returns:
  "\<not> shadows_hasOwnProperty c \<Longrightarrow> builtin_entries c \<Longrightarrow> builtin_entries md \<Longrightarrow>
   \<exists>b. fst (validateCache md c) = Inr b"
  using validate_loop_returns [of c md] by (auto simp: validateCache_loop)

lemma process_fst:
  "fst (process tests s) =
     (case fst (extract_tests tests s) of
        Some e \<Rightarrow> Some e
      | None \<Rightarrow>
          (case cached_metadata s of
             None \<Rightarrow> None
           | Some cached \<Rightarrow>
               (case fst (validateCache (metadata (snd (extract_tests tests s))) cached) of
                  Inl e \<Rightarrow> Some e
                | Inr valid \<Rightarrow> None)))"
  using cached_extract_tests [of tests s]
  by (cases "extract_tests tests s")
    (auto simp: process_def check_cache_def Let_def split: option.splits prod.splits sum.splits)

lemma process_returns:
  assumes "\<forall>t \<in> set tests. \<not> shadows_hasOwnProperty (properties t)"
    and "builtin_entries (metadata s)"
    and "\<forall>cached. cached_metadata s = Some cached \<longrightarrow>
           \<not> shadows_hasOwnProperty cached \<and> builtin_entries cached"
  shows "fst (process tests s) = None"
proof -
  have 1: "fst (extract_tests tests s) = None"
    using assms(1) by (rule extract_tests_returns)
  have 2: "builtin_entries (metadata (snd (extract_tests tests s)))"
    using assms(2) by (rule builtin_entries_extract_tests)
  show ?thesis
  proof (cases "cached_metadata s")
    case None
    then show ?thesis by (simp add: process_fst 1)
  next
    case (Some cached)
    with assms(3) have "\<not> shadows_hasOwnProperty cached" "builtin_entries cached" by simp_all
    from validateCache_returns [OF this 2] Some show ?thesis
      by (auto simp: process_fst 1)
  qed
qed


lemma extract_t1:
  "extract_tests [\<lparr>name = ''t1'', properties = [(''help'', JArr [''h1''])]\<rparr>] (initial c d) =
     (None, \<lparr>metadata = [(''t1'', [(''help'', JArr [''h1''])])], cached_metadata = c,
             document = d\<rparr>)"
proof -
  have e: "extractFromTest \<lparr>name = ''t1'', properties = [(''help'', JArr [''h1''])]\<rparr>
      = Inr [(''help'', JArr [''h1''])]"
    by code_simp
  have p: "js_put [] ''t1'' [(''help'', JArr [''h1''])] = [(''t1'', [(''help'', JArr [''h1''])])]"
    by (simp add: js_put_def)
  have t: "\<not> truthy (js_get [] ''t1'')"
    by (simp add: truthy_js_get Object_prototype_properties_def)
  show ?thesis
    by (simp add: initial_def process_test_def e p t)
qed

lemma validate_same:
  "validateCache [(''t1'', [(''help'', JArr [''h1''])])] [(''t1'', [(''help'', JArr [''h1''])])]
     = (Inr True, [])"
  by code_simp

lemma validate_longer:
  "validateCache [(''t1'', [(''help'', JArr [''h1''])])] [(''t1'', [(''help'', JArr [''h1'', ''h2''])])]
     = (Inr False, [])"
  by code_simp

lemma validate_shadowed:
  "validateCache [(''t1'', [(''help'', JArr [''h1''])])]
     [(''hasOwnProperty'', []), (''t1'', [(''help'', JArr [''h1''])])]
     = (Inl TypeError, [(''hasOwnProperty'', []), (''t1'', [(''help'', JArr [''h1''])])])"
  by code_simp

text \<open>
  C3, as the code has it. \<open>process\<close> does one of four things. When the extraction loop has run to
  its end and \<^verbatim>\<open>window.cached_metadata\<close> is absent, it inserts the message element of
  class \<^verbatim>\<open>warning\<close> with the text \<^verbatim>\<open>Cached metdata not present. \<close>; when the cached
  mapping is present and \<open>validateCache\<close> returns false, the message element of class
  \<^verbatim>\<open>error\<close> with the text \<^verbatim>\<open>Cached metadata out of sync. \<close>; when it is present and
  \<open>validateCache\<close> returns true, it leaves the document as the extraction loop left it.
  When the extraction loop or \<open>validateCache\<close> throws, the error leaves \<open>process\<close> and no
  message element is inserted. The message element is a paragraph with the id
  \<^verbatim>\<open>metadata_issue\<close>, the class, the text and a link, and inserting it adds this one node
  to the document. Nothing is thrown, and the outcome is one of the first three, when no
  own property named \<^verbatim>\<open>hasOwnProperty\<close> stands in the properties of a test, in the cached
  mapping, or in a sub-mapping of the cached or of the extracted mapping.
\<close>

theorem process_outcome:
  "process tests s =
     (case extract_tests tests s of
        (Some e, s1) \<Rightarrow> (Some e, s1)
      | (None, s1) \<Rightarrow>
          (case cached_metadata s1 of
             None \<Rightarrow>
               (None, s1\<lparr>document :=
                  place (message_element ''Cached metdata not present. '' ''warning'')
                    (document s1)\<rparr>)
           | Some cached \<Rightarrow>
               (case validateCache (metadata s1) cached of
                  (Inl e, cached') \<Rightarrow> (Some e, s1\<lparr>cached_metadata := Some cached'\<rparr>)
                | (Inr valid, cached') \<Rightarrow>
                    if valid then (None, s1\<lparr>cached_metadata := Some cached'\<rparr>)
                    else
                      (None, s1\<lparr>cached_metadata := Some cached',
                         document :=
                           place (message_element ''Cached metadata out of sync. '' ''error'')
                             (document s1)\<rparr>))))
   \<and> message_element message messageClass =
     Element ''p'' [(''id'', ''metadata_issue''), (''class'', messageClass)]
       [Text message,
        Element ''a'' [(''href'', ''#''), (''onclick'', ''metadata_generator.addSourceElement()'')]
          [Text ''Click for source code.'']]
   \<and> (\<exists>before after. doc = before @ after \<and> place e doc = before @ e # after)
   \<and> ((\<forall>t \<in> set tests. \<not> shadows_hasOwnProperty (properties t))
        \<and> builtin_entries (metadata s)
        \<and> (\<forall>cached. cached_metadata s = Some cached \<longrightarrow>
              \<not> shadows_hasOwnProperty cached \<and> builtin_entries cached)
       \<longrightarrow> fst (process tests s) = None)"
proof -
  have "process tests s =
     (case extract_tests tests s of
        (Some e, s1) \<Rightarrow> (Some e, s1)
      | (None, s1) \<Rightarrow>
          (case cached_metadata s1 of
             None \<Rightarrow>
               (None, s1\<lparr>document :=
                  place (message_element ''Cached metdata not present. '' ''warning'')
                    (document s1)\<rparr>)
           | Some cached \<Rightarrow>
               (case validateCache (metadata s1) cached of
                  (Inl e, cached') \<Rightarrow> (Some e, s1\<lparr>cached_metadata := Some cached'\<rparr>)
                | (Inr valid, cached') \<Rightarrow>
                    if valid then (None, s1\<lparr>cached_metadata := Some cached'\<rparr>)
                    else
                      (None, s1\<lparr>cached_metadata := Some cached',
                         document :=
                           place (message_element ''Cached metadata out of sync. '' ''error'')
                             (document s1)\<rparr>))))"
    by (cases "extract_tests tests s")
      (auto simp: process_def check_cache_def Let_def split: option.splits prod.splits sum.splits)
  then show ?thesis
    using place_inserts [of doc e] message_element_eq [of message messageClass]
      process_returns [of tests s]
    by blast
qed

theorem process_outcome_witness:
  "process [\<lparr>name = ''t1'', properties = [(''help'', JArr [''h1''])]\<rparr>] (initial None [])
     = (None, \<lparr>metadata = [(''t1'', [(''help'', JArr [''h1''])])], cached_metadata = None,
               document = [message_element ''Cached metdata not present. '' ''warning'']\<rparr>)
   \<and> process [\<lparr>name = ''t1'', properties = [(''help'', JArr [''h1''])]\<rparr>]
        (initial (Some [(''t1'', [(''help'', JArr [''h1'', ''h2''])])]) [])
     = (None, \<lparr>metadata = [(''t1'', [(''help'', JArr [''h1''])])], cached_metadata = Some [],
               document = [message_element ''Cached metadata out of sync. '' ''error'']\<rparr>)
   \<and> process [\<lparr>name = ''t1'', properties = [(''help'', JArr [''h1''])]\<rparr>]
        (initial (Some [(''t1'', [(''help'', JArr [''h1''])])]) [])
     = (None, \<lparr>metadata = [(''t1'', [(''help'', JArr [''h1''])])], cached_metadata = Some [],
               document = []\<rparr>)
   \<and> process [\<lparr>name = ''t1'', properties = [(''help'', JArr [''h1''])]\<rparr>]
        (initial (Some [(''hasOwnProperty'', []), (''t1'', [(''help'', JArr [''h1''])])]) [])
     = (Some TypeError, \<lparr>metadata = [(''t1'', [(''help'', JArr [''h1''])])],
          cached_metadata = Some [(''hasOwnProperty'', []), (''t1'', [(''help'', JArr [''h1''])])],
          document = []\<rparr>)
   \<and> fst (process [\<lparr>name = ''t1'', properties = [(''help'', JArr [''h1''])]\<rparr>]
        (initial (Some [(''t1'', [(''help'', JArr [''h1''])])]) [])) = None"
proof -
  let ?t = "\<lparr>name = ''t1'', properties = [(''help'', JArr [''h1''])]\<rparr>"
  have h: "(\<forall>t \<in> set [?t]. \<not> shadows_hasOwnProperty (properties t))
        \<and> builtin_entries (metadata (initial (Some [(''t1'', [(''help'', JArr [''h1''])])]) []))
        \<and> (\<forall>cached. cached_metadata (initial (Some [(''t1'', [(''help'', JArr [''h1''])])]) [])
                = Some cached \<longrightarrow>
              \<not> shadows_hasOwnProperty cached \<and> builtin_entries cached)"
    by (simp add: initial_def builtin_entries_def shadows_hasOwnProperty_def)
  from process_outcome [of "[?t]" "initial (Some [(''t1'', [(''help'', JArr [''h1''])])]) []"] h
  have r: "fst (process [?t] (initial (Some [(''t1'', [(''help'', JArr [''h1''])])]) [])) = None"
    by blast
  show ?thesis
    using r
      process_outcome [of "[?t]" "initial None []"]
      process_outcome [of "[?t]" "initial (Some [(''t1'', [(''help'', JArr [''h1'', ''h2''])])]) []"]
      process_outcome [of "[?t]" "initial (Some [(''t1'', [(''help'', JArr [''h1''])])]) []"]
      process_outcome [of "[?t]"
        "initial (Some [(''hasOwnProperty'', []), (''t1'', [(''help'', JArr [''h1''])])]) []"]
    unfolding extract_t1
    by (simp add: validate_same validate_longer validate_shadowed place_def)
qed

text \<open>
  C3 does not hold of every cached mapping: with the cached mapping
  \<^verbatim>\<open>{hasOwnProperty: {}, t1: {help: ["h1"]}}\<close> and the test \<^verbatim>\<open>t1\<close> the cached mapping is
  present and the validator returns neither true nor false; \<open>process\<close> ends with a
  \<^verbatim>\<open>TypeError\<close> and has inserted no message element.
\<close>

theorem process_throws_counterexample:
  "process [\<lparr>name = ''t1'', properties = [(''help'', JArr [''h1''])]\<rparr>]
        (initial (Some [(''hasOwnProperty'', []), (''t1'', [(''help'', JArr [''h1''])])]) [])
     = (Some TypeError, \<lparr>metadata = [(''t1'', [(''help'', JArr [''h1''])])],
          cached_metadata = Some [(''hasOwnProperty'', []), (''t1'', [(''help'', JArr [''h1''])])],
          document = []\<rparr>)"
  unfolding process_def extract_t1
  by (simp add: check_cache_def validate_shadowed)

subsection \<open>Names\<close>

text \<open>
  C10. A test whose name is an own property of \<^verbatim>\<open>Object.prototype\<close>, such as
  \<^verbatim>\<open>constructor\<close> or \<^verbatim>\<open>toString\<close>, is reported as a duplicate whatever the state, so
  also on its first occurrence: the loop body inserts the error message
  \<^verbatim>\<open>Duplicate test name: \<close> followed by the name and leaves the extracted mapping as it
  was, and \<open>process\<close> as a whole never gives the extracted mapping an entry of that name.
\<close>

theorem prototype_name_is_duplicate:
  assumes "name t \<in> set Object_prototype_properties"
  shows "process_test t s = (None, error (''Duplicate test name: '' @ name t) s)
    \<and> document (snd (process_test t s)) =
        place (Element ''p'' [(''class'', ''error'')] [Text (''Duplicate test name: '' @ name t)])
          (document s)
    \<and> metadata (snd (process_test t s)) = metadata s
    \<and> hasOwnProperty (metadata (snd (process tests s))) (name t) =
        hasOwnProperty (metadata s) (name t)
    \<and> map_of (metadata (snd (process tests s))) (name t) = map_of (metadata s) (name t)"
proof -
  have h: "''hasOwnProperty'' \<in> set Object_prototype_properties"
    by (simp add: Object_prototype_properties_def)
  have 1: "process_test t s = (None, error (''Duplicate test name: '' @ name t) s)"
    using assms by (rule process_test_prototype_name)
  have 2: "map_of (metadata (snd (process tests s))) (name t) = map_of (metadata s) (name t)"
    unfolding metadata_process using assms by (rule map_of_extract_tests_prototype_name)
  have 3: "map_of (metadata (snd (process tests s))) ''hasOwnProperty'' =
      map_of (metadata s) ''hasOwnProperty''"
    unfolding metadata_process using h by (rule map_of_extract_tests_prototype_name)
  have 4: "hasOwnProperty (metadata (snd (process tests s))) (name t) =
        hasOwnProperty (metadata s) (name t)"
    by (simp add: hasOwnProperty_def shadows_hasOwnProperty_def builtin_hasOwnProperty_def 2 3)
  from 1 2 4 show ?thesis by (simp add: document_error error_element_eq)
qed

theorem prototype_name_is_duplicate_witness:
  "''constructor'' \<in> set Object_prototype_properties
   \<and> ''toString'' \<in> set Object_prototype_properties
   \<and> process [\<lparr>name = ''constructor'', properties = [(''help'', JArr [''h1''])]\<rparr>] (initial None []) =
     (None, \<lparr>metadata = [], cached_metadata = None,
      document = [Element ''p'' [(''class'', ''error'')] [Text ''Duplicate test name: constructor''],
                  message_element ''Cached metdata not present. '' ''warning'']\<rparr>)"
proof -
  have c: "''constructor'' \<in> set Object_prototype_properties"
    and "''toString'' \<in> set Object_prototype_properties"
    by (simp_all add: Object_prototype_properties_def)
  moreover have "process [\<lparr>name = ''constructor'', properties = [(''help'', JArr [''h1''])]\<rparr>]
       (initial None []) =
     (None, \<lparr>metadata = [], cached_metadata = None,
      document = [Element ''p'' [(''class'', ''error'')] [Text ''Duplicate test name: constructor''],
                  message_element ''Cached metdata not present. '' ''warning'']\<rparr>)"
    using prototype_name_is_duplicate
      [of "\<lparr>name = ''constructor'', properties = [(''help'', JArr [''h1''])]\<rparr>" "initial None []" "[]"] c
    by (simp add: process_def check_cache_def initial_def error_def place_def error_element_eq)
  ultimately show ?thesis by simp
qed

lemma process_t1:
  "process [\<lparr>name = ''t1'', properties = [(''help'', JArr [''h1''])]\<rparr>] (initial None []) =
     (None, \<lparr>metadata = [(''t1'', [(''help'', JArr [''h1''])])], cached_metadata = None,
      document = [message_element ''Cached metdata not present. '' ''warning'']\<rparr>)"
  unfolding process_def extract_t1 by (simp add: check_cache_def place_def)

lemma extract_tests_aborted:
  "extract_tests [\<lparr>name = ''t1'', properties = [(''help'', JArr [''h1''])]\<rparr>,
                  \<lparr>name = ''t2'', properties = [(''hasOwnProperty'', JStr ''x'')]\<rparr>,
                  \<lparr>name = ''t3'', properties = []\<rparr>] (initial None []) =
     (Some TypeError, \<lparr>metadata = [(''t1'', [(''help'', JArr [''h1''])])], cached_metadata = None,
        document = []\<rparr>)"
proof -
  have e: "extractFromTest \<lparr>name = ''t1'', properties = [(''help'', JArr [''h1''])]\<rparr>
      = Inr [(''help'', JArr [''h1''])]"
    by code_simp
  have e2: "extractFromTest \<lparr>name = ''t2'', properties = [(''hasOwnProperty'', JStr ''x'')]\<rparr>
      = Inl TypeError"
    by code_simp
  have p: "js_put [] ''t1'' [(''help'', JArr [''h1''])] = [(''t1'', [(''help'', JArr [''h1''])])]"
    by (simp add: js_put_def)
  show ?thesis
    by (simp add: initial_def process_test_def e e2 p truthy_js_get Object_prototype_properties_def)
qed

text \<open>
  C9, as the code has it. The extracted mapping is the field
  \<^verbatim>\<open>metadata_generator.metadata\<close> and outlives the invocation of \<open>process\<close> that filled
  it; the cached mapping is the page's global and stays as the validator has left it, or
  as it was when the extraction loop has thrown. \<open>process\<close> keeps every entry the
  extracted mapping had, and when its extraction loop has run to its end, as it does
  when no test has an own property named \<^verbatim>\<open>hasOwnProperty\<close> among its properties, the
  name of every test of the run is taken in the mapping. A second invocation starts from
  that mapping: over the same tests its extraction loop then reports every test as a
  duplicate, and in every case it adds nothing to the mapping.
\<close>

theorem metadata_persists:
  "metadata (snd (process tests s)) = metadata (snd (extract_tests tests s))
   \<and> cached_metadata (snd (process tests s)) =
       (if fst (extract_tests tests s) = None then
          map_option (\<lambda>cached. snd (validateCache (metadata (snd (extract_tests tests s))) cached))
            (cached_metadata s)
        else cached_metadata s)
   \<and> (\<forall>n v. map_of (metadata s) n = Some v \<longrightarrow>
         map_of (metadata (snd (process tests s))) n = Some v)
   \<and> ((\<forall>t \<in> set tests. \<not> shadows_hasOwnProperty (properties t)) \<longrightarrow>
         fst (extract_tests tests s) = None)
   \<and> (fst (extract_tests tests s) = None \<longrightarrow>
        (\<forall>t \<in> set tests. truthy (js_get (metadata (snd (process tests s))) (name t)))
        \<and> extract_tests tests (snd (process tests s)) =
            (None, (snd (process tests s))\<lparr>document :=
               report_duplicates (map name tests) (document (snd (process tests s)))\<rparr>))
   \<and> metadata (snd (process tests (snd (process tests s)))) = metadata (snd (process tests s))"
proof -
  have cached: "cached_metadata (snd (process tests s)) =
       (if fst (extract_tests tests s) = None then
          map_option (\<lambda>cached. snd (validateCache (metadata (snd (extract_tests tests s))) cached))
            (cached_metadata s)
        else cached_metadata s)"
    using cached_extract_tests [of tests s]
    by (cases "extract_tests tests s")
      (auto simp: process_def check_cache_def Let_def split: option.splits prod.splits sum.splits)
  have returns: "fst (extract_tests tests s) = None"
    if "\<forall>t \<in> set tests. \<not> shadows_hasOwnProperty (properties t)"
    using that by (rule extract_tests_returns)
  have taken: "\<forall>t \<in> set tests. truthy (js_get (metadata (snd (process tests s))) (name t))"
    if "fst (extract_tests tests s) = None"
    using that by (simp add: metadata_process extract_tests_takes_names)
  have again: "extract_tests tests (snd (process tests s)) =
       (None, (snd (process tests s))\<lparr>document :=
          report_duplicates (map name tests) (document (snd (process tests s)))\<rparr>)"
    if "fst (extract_tests tests s) = None"
    using taken [OF that] by (rule extract_tests_all_taken)
  have "metadata (snd (process tests (snd (process tests s)))) =
      metadata (snd (extract_tests tests (snd (process tests s))))"
    by (rule metadata_process)
  also have "\<dots> = metadata (snd (process tests s))"
    by (rule extract_tests_again [where s = s]) (rule metadata_process)
  finally have twice:
    "metadata (snd (process tests (snd (process tests s)))) = metadata (snd (process tests s))" .
  have keeps: "\<forall>n v. map_of (metadata s) n = Some v \<longrightarrow>
         map_of (metadata (snd (process tests s))) n = Some v"
    by (simp add: metadata_process extract_tests_keeps)
  have first: "metadata (snd (process tests s)) = metadata (snd (extract_tests tests s))"
    by (rule metadata_process)
  from first cached keeps returns taken again twice show ?thesis by blast
qed

theorem metadata_persists_witness:
  "map_of (metadata (snd (process [\<lparr>name = ''t1'', properties = [(''help'', JArr [''h1''])]\<rparr>]
      (initial None [])))) ''t1'' = Some [(''help'', JArr [''h1''])]
   \<and> map_of (metadata (snd (process [\<lparr>name = ''t1'', properties = [(''help'', JArr [''h1''])]\<rparr>]
      (snd (process [\<lparr>name = ''t1'', properties = [(''help'', JArr [''h1''])]\<rparr>] (initial None [])))))
      ) ''t1'' = Some [(''help'', JArr [''h1''])]
   \<and> truthy (js_get (metadata (snd (process [\<lparr>name = ''t1'', properties = [(''help'', JArr [''h1''])]\<rparr>]
      (snd (process [\<lparr>name = ''t1'', properties = [(''help'', JArr [''h1''])]\<rparr>] (initial None [])))))
      ) ''t1'')"
proof -
  let ?t = "\<lparr>name = ''t1'', properties = [(''help'', JArr [''h1''])]\<rparr>"
  let ?s = "snd (process [?t] (initial None []))"
  have first: "map_of (metadata ?s) ''t1'' = Some [(''help'', JArr [''h1''])]"
    unfolding process_t1 by simp
  have ns: "\<forall>t \<in> set [?t]. \<not> shadows_hasOwnProperty (properties t)"
    by (simp add: shadows_hasOwnProperty_def)
  from metadata_persists [of "[?t]" ?s]
  have keep: "\<forall>n v. map_of (metadata ?s) n = Some v \<longrightarrow>
        map_of (metadata (snd (process [?t] ?s))) n = Some v"
    and returns: "(\<forall>t \<in> set [?t]. \<not> shadows_hasOwnProperty (properties t)) \<longrightarrow>
         fst (extract_tests [?t] ?s) = None"
    and taken: "fst (extract_tests [?t] ?s) = None \<longrightarrow>
        (\<forall>t \<in> set [?t]. truthy (js_get (metadata (snd (process [?t] ?s))) (name t)))"
    by blast+
  from keep first have "map_of (metadata (snd (process [?t] ?s))) ''t1'' = Some [(''help'', JArr [''h1''])]"
    by blast
  moreover from taken returns ns have "truthy (js_get (metadata (snd (process [?t] ?s))) ''t1'')"
    by simp
  ultimately show ?thesis using first by blast
qed

text \<open>
  C9 does not hold of a second invocation: after a first invocation on the test \<^verbatim>\<open>t1\<close>
  the extracted mapping holds the entry of \<^verbatim>\<open>t1\<close>, and a second invocation on the same
  test inserts the message \<^verbatim>\<open>Duplicate test name: t1\<close>, which the first did not.
\<close>

theorem second_invocation_counterexample:
  "metadata (snd (process [\<lparr>name = ''t1'', properties = [(''help'', JArr [''h1''])]\<rparr>] (initial None [])))
     = [(''t1'', [(''help'', JArr [''h1''])])]
   \<and> document (snd (process [\<lparr>name = ''t1'', properties = [(''help'', JArr [''h1''])]\<rparr>] (initial None [])))
     = [message_element ''Cached metdata not present. '' ''warning'']
   \<and> document (snd (process [\<lparr>name = ''t1'', properties = [(''help'', JArr [''h1''])]\<rparr>]
       (snd (process [\<lparr>name = ''t1'', properties = [(''help'', JArr [''h1''])]\<rparr>] (initial None [])))))
     = [message_element ''Cached metdata not present. '' ''warning'',
        Element ''p'' [(''class'', ''error'')] [Text ''Duplicate test name: t1''],
        message_element ''Cached metdata not present. '' ''warning'']"
  unfolding process_t1
  by (simp add: process_def check_cache_def process_test_def truthy_js_get error_def place_def
      error_element_eq message_element_eq)


text \<open>
  After \<open>process\<close> has reported an absent cache, \<open>addSourceElement\<close> finds the message
  element and puts in the document the block with the source of the extracted mapping
  that \<open>process\<close> left in the field.
\<close>

lemma source_wrapper_eq:
  "source_wrapper md =
     Element ''div'' [(''id'', ''metadata_source'')]
       [Element ''p'' []
          [Text (''Copy the following into the <head> element of the test or the test'' @
             [CHR 0x27] @ ''s metadata sidecar file:'')],
        Element ''pre'' [] [Text (generateSource md)]]"
  by (simp add: source_wrapper_def createElement_def appendText_def)

lemma replace_id_finds:
  "\<exists>n \<in> set doc. has_id i n \<Longrightarrow>
   \<exists>doc'. replace_id doc i new = Some doc' \<and> new \<in> set doc' \<and> length doc' = length doc"
proof (induction doc)
  case Nil
  then show ?case by simp
next
  case (Cons n ns)
  show ?case
  proof (cases "has_id i n")
    case True
    then show ?thesis by simp
  next
    case False
    with Cons.prems have "\<exists>n \<in> set ns. has_id i n" by simp
    from Cons.IH [OF this] False show ?thesis by auto
  qed
qed

lemma place_member: "e \<in> set (place e doc)"
  using place_inserts [of doc e] by auto

lemma addSourceElement_after_message:
  assumes "cached_metadata s = None" "fst (extract_tests tests s) = None"
  shows "\<exists>s'. addSourceElement (snd (process tests s)) = Some s'
    \<and> source_wrapper (metadata (snd (extract_tests tests s))) \<in> set (document s')
    \<and> metadata s' = metadata (snd (extract_tests tests s))"
proof -
  let ?m = "message_element ''Cached metdata not present. '' ''warning''"
  let ?s1 = "snd (extract_tests tests s)"
  have p: "snd (process tests s) = ?s1\<lparr>document := place ?m (document ?s1)\<rparr>"
    using assms cached_extract_tests [of tests s]
    by (cases "extract_tests tests s") (simp add: process_def check_cache_def)
  have "has_id ''metadata_issue'' ?m" by (simp add: message_element_eq)
  then have "\<exists>n \<in> set (place ?m (document ?s1)). has_id ''metadata_issue'' n"
    using place_member [of ?m "document ?s1"] by blast
  from replace_id_finds [OF this, of "source_wrapper (metadata ?s1)"] show ?thesis
    by (auto simp: addSourceElement_def p)
qed

text \<open>
  The duplicate check on names that \<^verbatim>\<open>Object.prototype\<close> does not have, when the
  extraction loop runs to its end. The extracted mapping keeps what it had and gets, for
  each new name, the metadata of the first test of that name; the document gets one
  error message for each occurrence of a name already seen.
\<close>

lemma extract_tests_retains_first:
  assumes "\<forall>t \<in> set tests. name t \<notin> set Object_prototype_properties"
    and "fst (extract_tests tests s) = None"
  shows "map_of (metadata (snd (extract_tests tests s))) n =
     (case map_of (metadata s) n of
        Some v \<Rightarrow> Some v
      | None \<Rightarrow>
          (case find (\<lambda>t. name t = n) tests of
             None \<Rightarrow> None
           | Some t \<Rightarrow> (case extractFromTest t of Inl e \<Rightarrow> None | Inr testMetadata \<Rightarrow> Some testMetadata)))"
  using assms
proof (induction tests arbitrary: s)
  case Nil
  show ?case by (simp split: option.splits)
next
  case (Cons t tests)
  from Cons.prems(2) have t: "fst (process_test t s) = None"
    and rest: "fst (extract_tests tests (snd (process_test t s))) = None"
    unfolding extract_tests_Cons by (auto split: if_splits)
  from Cons.prems(1) have names: "\<forall>t \<in> set tests. name t \<notin> set Object_prototype_properties"
    and n: "name t \<notin> set Object_prototype_properties"
    by simp_all
  note IH = Cons.IH [OF names rest]
  show ?case
  proof (cases t s rule: process_test_cases)
    case taken
    with n have "map_of (metadata s) (name t) \<noteq> None" by (simp add: truthy_js_get)
    then show ?thesis
      unfolding extract_tests_Cons using IH taken t by (auto split: option.splits)
  next
    case (throws e)
    with t show ?thesis by simp
  next
    case (records testMetadata)
    with n have "map_of (metadata s) (name t) = None" by (simp add: truthy_js_get)
    then show ?thesis
      unfolding extract_tests_Cons using IH records t
      by (auto simp: map_of_js_put split: option.splits)
  qed
qed

lemma duplicate_occurrences_cong:
  "set seen = set seen' \<Longrightarrow> duplicate_occurrences seen tests = duplicate_occurrences seen' tests"
proof (induction tests arbitrary: seen seen')
  case Nil
  show ?case by simp
next
  case (Cons t tests)
  from Cons.prems have "set (name t # seen) = set (name t # seen')" by simp
  then have "duplicate_occurrences (name t # seen) tests = duplicate_occurrences (name t # seen') tests"
    by (rule Cons.IH)
  moreover have "duplicate_occurrences seen tests = duplicate_occurrences seen' tests"
    using Cons.prems by (rule Cons.IH)
  ultimately show ?case using Cons.prems by simp
qed

lemma extract_tests_reports_duplicates:
  assumes "\<forall>t \<in> set tests. name t \<notin> set Object_prototype_properties"
    and "fst (extract_tests tests s) = None"
  shows "document (snd (extract_tests tests s)) =
     report_duplicates (duplicate_occurrences (map fst (metadata s)) tests) (document s)"
  using assms
proof (induction tests arbitrary: s)
  case Nil
  show ?case by (simp add: report_duplicates_def)
next
  case (Cons t tests)
  from Cons.prems(2) have t: "fst (process_test t s) = None"
    and rest: "fst (extract_tests tests (snd (process_test t s))) = None"
    unfolding extract_tests_Cons by (auto split: if_splits)
  from Cons.prems(1) have names: "\<forall>t \<in> set tests. name t \<notin> set Object_prototype_properties"
    and n: "name t \<notin> set Object_prototype_properties"
    by simp_all
  note IH = Cons.IH [OF names rest]
  show ?case
  proof (cases t s rule: process_test_cases)
    case taken
    with n have "name t \<in> fst ` set (metadata s)"
      by (simp add: truthy_js_get map_of_eq_None_iff)
    with IH taken show ?thesis
      unfolding extract_tests_Cons by (simp add: report_duplicates_def error_def)
  next
    case (throws e)
    with t show ?thesis by simp
  next
    case (records testMetadata)
    with n have f: "name t \<notin> fst ` set (metadata s)"
      by (simp add: truthy_js_get map_of_eq_None_iff)
    have "duplicate_occurrences (map fst (js_put (metadata s) (name t) testMetadata)) tests =
        duplicate_occurrences (name t # map fst (metadata s)) tests"
      by (rule duplicate_occurrences_cong) (simp add: keys_js_put)
    with f IH records show ?thesis
      unfolding extract_tests_Cons by simp
  qed
qed

text \<open>
  C4. Two tests named \<^verbatim>\<open>constructor\<close>, run from the initial state: \<open>process\<close> inserts
  the message \<^verbatim>\<open>Duplicate test name: constructor\<close> twice, once for the first occurrence
  too, and the extracted mapping stays empty, so the metadata of the first occurrence is
  not retained.
\<close>

theorem duplicate_check_finds_inherited_property:
  "process [\<lparr>name = ''constructor'', properties = [(''help'', JArr [''h1''])]\<rparr>,
            \<lparr>name = ''constructor'', properties = [(''help'', JArr [''h2''])]\<rparr>] (initial None []) =
     (None, \<lparr>metadata = [], cached_metadata = None,
      document = [Element ''p'' [(''class'', ''error'')] [Text ''Duplicate test name: constructor''],
                  Element ''p'' [(''class'', ''error'')] [Text ''Duplicate test name: constructor''],
                  message_element ''Cached metdata not present. '' ''warning'']\<rparr>)"
  by (simp add: process_def check_cache_def initial_def process_test_def truthy_js_get
      Object_prototype_properties_def error_def place_def error_element_eq message_element_eq)

subsection \<open>The renderer\<close>

lemma hex_digit_in: "n < 16 \<Longrightarrow> hex_digit n \<in> set ''0123456789abcdef''"
  unfolding hex_digit_def by (rule nth_mem) simp

lemma hex_digit_not_NL: "n < 16 \<Longrightarrow> NL \<noteq> hex_digit n"
  using hex_digit_in [of n] by auto

lemma NL_notin_JSON_quote_char: "NL \<notin> set (JSON_quote_char c)"
proof -
  have d: "NL \<noteq> hex_digit ((of_char c :: nat) div 16)"
    by (rule hex_digit_not_NL) (use nat_of_char_less_256 [of c] in arith)
  have m: "NL \<noteq> hex_digit ((of_char c :: nat) mod 16)"
    by (rule hex_digit_not_NL) simp
  show ?thesis
    by (simp add: JSON_quote_char_def d m)
qed

lemma NL_notin_JSON_stringify: "NL \<notin> set (JSON_stringify s)"
  by (simp add: JSON_stringify_def NL_notin_JSON_quote_char)

lemma jsonifyArray_loop_Suc:
  "jsonifyArray_loop xs indent (Suc i) =
     concat (map (\<lambda>y. '','' @ [NL] @ ''  '' @ indent @ JSON_stringify y) xs)"
  by (induction xs arbitrary: i) simp_all

lemma jsonifyArray_Cons:
  "jsonifyArray (x # xs) indent =
     ''['' @ JSON_stringify x @
     concat (map (\<lambda>y. '','' @ [NL] @ ''  '' @ indent @ JSON_stringify y) xs) @ '']''"
  by (cases xs) (simp_all add: jsonifyArray_def jsonifyArray_loop_Suc)

lemma take_spaces16: "n \<le> 16 \<Longrightarrow> take n spaces16 = replicate n (CHR '' '')"
  by (simp add: spaces16_def min_def)

lemma replicate_13: "replicate 13 (CHR '' '') = ''             ''"
  by code_simp

lemma take_9_spaces16: "take 9 spaces16 = ''         ''"
  by (simp add: spaces16_def) code_simp

lemma take_11_spaces16: "take 11 spaces16 = ''           ''"
  by (simp add: spaces16_def) code_simp

lemma jsonifyObject_loop_append:
  "jsonifyObject_loop (before @ after) indent first =
     jsonifyObject_loop before indent first @
     jsonifyObject_loop after indent (first \<and> before = [])"
  by (induction before arbitrary: first) auto

lemma jsonifyObject_loop_array:
  "length property \<le> 11 \<Longrightarrow>
   jsonifyObject_loop ((property, Leaf (JArr (x # xs))) # after) indent first =
     (if first then [] else '','') @ [NL] @
     (''  '' @ indent @ [DQ] @ property @ [DQ] @ '': ['') @ JSON_stringify x @
     concat (map (\<lambda>y. '','' @ [NL] @
               (''  '' @ indent @ replicate (5 + length property) (CHR '' '')) @
               JSON_stringify y) xs) @ '']'' @
     jsonifyObject_loop after indent False"
  by (simp add: jsonifyArray_Cons take_spaces16)

lemma blank_replicate: "blank indent \<Longrightarrow> indent = replicate (length indent) (CHR '' '')"
  by (induction indent) (simp_all add: blank_def)

lemma continuation_aligned:
  assumes "blank indent"
  shows "''  '' @ indent @ replicate (5 + length property) (CHR '' '') =
     replicate (length (''  '' @ indent @ [DQ] @ property @ [DQ] @ '': ['')) (CHR '' '')"
proof -
  have l: "length (''  '' @ indent @ [DQ] @ property @ [DQ] @ '': ['') =
      Suc (Suc 0) + (length indent + (5 + length property))"
    by simp
  have "replicate (Suc (Suc 0) + (length indent + (5 + length property))) (CHR '' '') =
      replicate (Suc (Suc 0)) (CHR '' '') @ replicate (length indent) (CHR '' '') @
      replicate (5 + length property) (CHR '' '')"
    by (simp only: replicate_add)
  also have "\<dots> = ''  '' @ indent @ replicate (5 + length property) (CHR '' '')"
    using blank_replicate [OF assms] by simp
  finally show ?thesis unfolding l by simp
qed


text \<open>
  C8. The one-element sequence \<^verbatim>\<open>["x"]\<close> renders as the text \<^verbatim>\<open>["x"]\<close>, and no
  one-element sequence renders with a line break in it. The sequence \<^verbatim>\<open>["x", "y"]\<close>
  renders as \<^verbatim>\<open>["x",\<close>, a line break, two spaces and the indentation, and \<^verbatim>\<open>"y"]\<close>. In
  general the elements after the first each follow a comma, a line break, two spaces and
  the indentation, and no element has a line break in it, so each is on a line of its
  own. In an object, at any place among its keys, a sequence under a key of at most 11
  characters, as the recognized keys are, is rendered after the keys before it and a
  comma when it is not the first: a line break, the text that opens the line of the key
  up to the bracket, the first element, and each further element on a line of its own
  after two spaces, the indentation and five spaces more than the key is long. When the
  indentation is made of spaces, as it is in every call, that is as many spaces as the
  opening text is long: the elements stand in one column.
\<close>

theorem jsonifyArray_layout:
  "jsonifyArray [''x''] indent = [CHR ''['', DQ, CHR ''x'', DQ, CHR '']'']
   \<and> NL \<notin> set (jsonifyArray [x] indent)
   \<and> jsonifyArray [''x'', ''y''] indent =
       [CHR ''['', DQ, CHR ''x'', DQ, CHR '',''] @ [NL] @ ''  '' @ indent @
       [DQ, CHR ''y'', DQ, CHR '']'']
   \<and> jsonifyArray (x # xs) indent =
       ''['' @ JSON_stringify x @
       concat (map (\<lambda>y. '','' @ [NL] @ ''  '' @ indent @ JSON_stringify y) xs) @ '']''
   \<and> NL \<notin> set (JSON_stringify y)
   \<and> (length property \<le> 11 \<longrightarrow>
       jsonifyObject_loop (before @ (property, Leaf (JArr (x # xs))) # after) indent first =
         jsonifyObject_loop before indent first @
         (if first \<and> before = [] then [] else '','') @ [NL] @
         (''  '' @ indent @ [DQ] @ property @ [DQ] @ '': ['') @ JSON_stringify x @
         concat (map (\<lambda>y. '','' @ [NL] @
                   (''  '' @ indent @ replicate (5 + length property) (CHR '' '')) @
                   JSON_stringify y) xs) @ '']'' @
         jsonifyObject_loop after indent False)
   \<and> (length property \<le> 11 \<and> blank indent \<longrightarrow>
       jsonifyObject_loop (before @ (property, Leaf (JArr (x # xs))) # after) indent first =
         jsonifyObject_loop before indent first @
         (if first \<and> before = [] then [] else '','') @ [NL] @
         (''  '' @ indent @ [DQ] @ property @ [DQ] @ '': ['') @ JSON_stringify x @
         concat (map (\<lambda>y. '','' @ [NL] @
                   replicate (length (''  '' @ indent @ [DQ] @ property @ [DQ] @ '': ['')) (CHR '' '') @
                   JSON_stringify y) xs) @ '']'' @
         jsonifyObject_loop after indent False)
   \<and> (\<forall>k \<in> set metadataProperties. length k \<le> 11)"
proof -
  have a: "jsonifyArray [''x''] indent = [CHR ''['', DQ, CHR ''x'', DQ, CHR '']'']"
    by (simp add: jsonifyArray_def JSON_stringify_def JSON_quote_char_def)
  have b: "NL \<notin> set (jsonifyArray [x] indent)"
    by (simp add: jsonifyArray_def NL_notin_JSON_stringify)
  have c: "jsonifyArray [''x'', ''y''] indent =
       [CHR ''['', DQ, CHR ''x'', DQ, CHR '',''] @ [NL] @ ''  '' @ indent @
       [DQ, CHR ''y'', DQ, CHR '']'']"
    by (simp add: jsonifyArray_def JSON_stringify_def JSON_quote_char_def)
  have d: "jsonifyObject_loop (before @ (property, Leaf (JArr (x # xs))) # after) indent first =
         jsonifyObject_loop before indent first @
         (if first \<and> before = [] then [] else '','') @ [NL] @
         (''  '' @ indent @ [DQ] @ property @ [DQ] @ '': ['') @ JSON_stringify x @
         concat (map (\<lambda>y. '','' @ [NL] @
                   (''  '' @ indent @ replicate (5 + length property) (CHR '' '')) @
                   JSON_stringify y) xs) @ '']'' @
         jsonifyObject_loop after indent False"
    if "length property \<le> 11"
    unfolding jsonifyObject_loop_append [of before] jsonifyObject_loop_array [OF that]
    by simp
  have e: "\<forall>k \<in> set metadataProperties. length k \<le> 11"
    by (simp add: metadataProperties_def)
  have f: "jsonifyObject_loop (before @ (property, Leaf (JArr (x # xs))) # after) indent first =
         jsonifyObject_loop before indent first @
         (if first \<and> before = [] then [] else '','') @ [NL] @
         (''  '' @ indent @ [DQ] @ property @ [DQ] @ '': ['') @ JSON_stringify x @
         concat (map (\<lambda>y. '','' @ [NL] @
                   replicate (length (''  '' @ indent @ [DQ] @ property @ [DQ] @ '': ['')) (CHR '' '') @
                   JSON_stringify y) xs) @ '']'' @
         jsonifyObject_loop after indent False"
    if "length property \<le> 11" "blank indent"
    unfolding d [OF that(1)] continuation_aligned [OF that(2), of property] ..
  have g: "jsonifyArray (x # xs) indent =
       ''['' @ JSON_stringify x @
       concat (map (\<lambda>y. '','' @ [NL] @ ''  '' @ indent @ JSON_stringify y) xs) @ '']''"
    by (rule jsonifyArray_Cons)
  have h: "NL \<notin> set (JSON_stringify y)" by (rule NL_notin_JSON_stringify)
  from a b c g h d f e show ?thesis by blast
qed

theorem jsonifyArray_layout_witness:
  \<open>length ''help'' \<le> 11 \<and> length ''assert'' \<le> 11 \<and> blank ''  ''
   \<and> ''help'' \<in> set metadataProperties \<and> ''assert'' \<in> set metadataProperties
   \<and> jsonifyObject_loop [(''help'', Leaf (JArr [''h1'', ''h2''])),
                          (''assert'', Leaf (JArr [''a1'', ''a2'', ''a3'']))] ''  '' True =
     [NL] @ ''    "help": ["h1",'' @
     [NL] @ ''             "h2"],'' @
     [NL] @ ''    "assert": ["a1",'' @
     [NL] @ ''               "a2",'' @
     [NL] @ ''               "a3"]''\<close>
proof -
  have b: "blank ''  ''" by (simp add: blank_def)
  have l: "length ''help'' \<le> 11" "length ''assert'' \<le> 11" by simp_all
  have m: "''help'' \<in> set metadataProperties" "''assert'' \<in> set metadataProperties"
    by (simp_all add: metadataProperties_def)
  note layout = jsonifyArray_layout [THEN conjunct2, THEN conjunct2, THEN conjunct2,
      THEN conjunct2, THEN conjunct2, THEN conjunct2, THEN conjunct1, rule_format]
  have 1: \<open>jsonifyObject_loop [(''help'', Leaf (JArr [''h1'', ''h2'']))] ''  '' True =
      [NL] @ ''    "help": ["h1",'' @ [NL] @ ''             "h2"]''\<close>
    using layout [where property = "''help''" and x = "''h1''" and xs = "[''h2'']"
      and indent = "''  ''" and before = "[]" and after = "[]" and first = True,
      OF conjI [OF l(1) b]]
    by (simp add: JSON_stringify_def JSON_quote_char_def replicate_13)
  have \<open>jsonifyObject_loop [(''help'', Leaf (JArr [''h1'', ''h2''])),
                          (''assert'', Leaf (JArr [''a1'', ''a2'', ''a3'']))] ''  '' True =
     [NL] @ ''    "help": ["h1",'' @
     [NL] @ ''             "h2"],'' @
     [NL] @ ''    "assert": ["a1",'' @
     [NL] @ ''               "a2",'' @
     [NL] @ ''               "a3"]''\<close>
    using layout [where property = "''assert''" and x = "''a1''"
      and xs = "[''a2'', ''a3'']" and indent = "''  ''"
      and before = "[(''help'', Leaf (JArr [''h1'', ''h2'']))]" and after = "[]" and first = True,
      OF conjI [OF l(2) b]]
    unfolding 1
    by (simp add: JSON_stringify_def JSON_quote_char_def jsonifyArray_def take_9_spaces16
        take_11_spaces16)
  with b l m show ?thesis by blast
qed

text \<open>
  The specification's scenario: the source generated for the tests \<^verbatim>\<open>t1\<close> with
  \<^verbatim>\<open>{help: ["h1"]}\<close> and \<^verbatim>\<open>t2\<close> with \<^verbatim>\<open>{assert: ["a1", "a2"]}\<close>.
\<close>

lemma generateSource_scenario:
  \<open>generateSource [(''t1'', [(''help'', JArr [''h1''])]), (''t2'', [(''assert'', JArr [''a1'', ''a2''])])] =
     ''<script id="test_metadata">'' @ [NL] @
     ''var cached_metadata = {'' @ [NL] @
     ''  "t1": {'' @ [NL] @
     ''    "help": ["h1"]'' @ [NL] @
     ''  },'' @ [NL] @
     ''  "t2": {'' @ [NL] @
     ''    "assert": ["a1",'' @ [NL] @
     ''               "a2"]'' @ [NL] @
     ''  }'' @ [NL] @
     ''}'' @ [NL] @
     ''</script>'' @ [NL]\<close>
  by (simp add: generateSource_def tree_of_mapping_def tree_of_submapping_def jsonifyArray_def
      take_9_spaces16 take_11_spaces16 JSON_stringify_def JSON_quote_char_def)

subsection \<open>Reading the generated source back\<close>

lemma hex_value_hex_digits: "list_all (\<lambda>n. hex_value (hex_digit n) = Some n) [0..<16]"
  by code_simp

lemma hex_value_hex_digit: "n < 16 \<Longrightarrow> hex_value (hex_digit n) = Some n"
  using hex_value_hex_digits by (simp add: list_all_iff)

lemma unicode_escape_hex:
  assumes "(of_char c :: nat) < 0x20"
  shows "unicode_escape (CHR ''0'') (CHR ''0'') (hex_digit ((of_char c :: nat) div 16))
           (hex_digit ((of_char c :: nat) mod 16)) = Some c"
proof -
  have d: "(of_char c :: nat) div 16 < 16" using assms by arith
  have m: "(of_char c :: nat) mod 16 < 16" by simp
  have z: "hex_value (CHR ''0'') = Some 0" by (simp add: hex_value_def)
  have "char_of (16 * ((of_char c :: nat) div 16) + (of_char c :: nat) mod 16) = c"
    by simp
  then show ?thesis
    by (simp add: unicode_escape_def z hex_value_hex_digit [OF d] hex_value_hex_digit [OF m])
qed

lemma parse_chars_quote_char:
  "parse_chars (JSON_quote_char c @ rest) = map_option (\<lambda>(s, r). (c # s, r)) (parse_chars rest)"
proof -
  consider "c = DQ" | "c = BS" | "c = CHR 0x08" | "c = CHR 0x0C" | "c = NL" | "c = CHR 0x0D"
    | "c = CHR 0x09"
    | "c \<notin> {DQ, BS, CHR 0x08, CHR 0x0C, NL, CHR 0x0D, CHR 0x09}" "(of_char c :: nat) < 0x20"
    | "c \<notin> {DQ, BS, CHR 0x08, CHR 0x0C, NL, CHR 0x0D, CHR 0x09}" "\<not> (of_char c :: nat) < 0x20"
    by blast
  then show ?thesis
  proof cases
    case 8
    then show ?thesis
      by (simp add: JSON_quote_char_def unicode_escape_hex)
  next
    case 9
    then show ?thesis
      by (simp add: JSON_quote_char_def)
  qed (simp_all add: JSON_quote_char_def unescape_def)
qed

lemma parse_chars_DQ: "parse_chars (DQ # rest) = Some ([], rest)"
  by simp

lemma parse_chars_quoted:
  "parse_chars (concat (map JSON_quote_char s) @ DQ # rest) = Some (s, rest)"
  by (induction s) (simp_all add: parse_chars_quote_char parse_chars_DQ del: parse_chars.simps(2))

lemma parse_chars_plain:
  "plain k \<Longrightarrow> parse_chars (k @ DQ # rest) = Some (k, rest)"
  by (induction k) (simp_all add: plain_def)

lemma skip_ws_stop: "\<not> is_ws c \<Longrightarrow> skip_ws (c # r) = c # r"
  by (simp add: skip_ws_def)

lemma skip_ws_blank: "blank w \<Longrightarrow> skip_ws (w @ r) = skip_ws r"
  by (induction w) (simp_all add: skip_ws_def blank_def is_ws_def)

lemma skip_ws_NL: "skip_ws (NL # r) = skip_ws r"
  by (simp add: skip_ws_def is_ws_def)

lemma skip_ws_space: "skip_ws (CHR '' '' # r) = skip_ws r"
  by (simp add: skip_ws_def is_ws_def)

lemma skip_ws_stringify: "skip_ws (JSON_stringify x @ r) = JSON_stringify x @ r"
  by (simp add: JSON_stringify_def skip_ws_def is_ws_def)

lemma parse_string_stringify: "parse_string (JSON_stringify x @ rest) = Some (x, rest)"
  by (simp add: parse_string_def JSON_stringify_def parse_chars_quoted)

lemma parse_elements_rendered:
  "blank indent \<Longrightarrow> length xs < n \<Longrightarrow>
   parse_elements n
     (JSON_stringify x @
      concat (map (\<lambda>y. '','' @ [NL] @ ''  '' @ indent @ JSON_stringify y) xs) @ '']'' @ rest)
     = Some (x # xs, rest)"
proof (induction xs arbitrary: x n)
  case Nil
  then obtain m where n: "n = Suc m" by (cases n) auto
  show ?case
    by (simp add: n parse_string_stringify skip_ws_stop is_ws_def)
next
  case (Cons y ys)
  then obtain m where n: "n = Suc m" by (cases n) auto
  with Cons.prems have m: "length ys < m" by simp
  have "skip_ws ([NL] @ ''  '' @ indent @ JSON_stringify y @
           concat (map (\<lambda>y. '','' @ [NL] @ ''  '' @ indent @ JSON_stringify y) ys) @ '']'' @ rest)
      = JSON_stringify y @
           concat (map (\<lambda>y. '','' @ [NL] @ ''  '' @ indent @ JSON_stringify y) ys) @ '']'' @ rest"
    using Cons.prems(1) by (simp add: skip_ws_NL skip_ws_space skip_ws_blank skip_ws_stringify)
  then show ?case
    using Cons.IH [OF Cons.prems(1) m, of y]
    by (simp add: n parse_string_stringify skip_ws_stop is_ws_def)
qed

lemma parse_value_array:
  assumes "blank indent" "length xs \<le> n"
  shows "parse_value (Suc n) (jsonifyArray xs indent @ rest) = Some (Leaf (JArr xs), rest)"
proof (cases xs)
  case Nil
  then show ?thesis
    by (simp add: jsonifyArray_def parse_array_def skip_ws_stop is_ws_def)
next
  case (Cons x xs')
  with assms have l: "length xs' < n" by simp
  have "parse_array n (JSON_stringify x @
      concat (map (\<lambda>y. '','' @ [NL] @ ''  '' @ indent @ JSON_stringify y) xs') @ '']'' @ rest)
     = Some (x # xs', rest)"
    using parse_elements_rendered [OF assms(1) l, of x rest]
    by (simp add: parse_array_def JSON_stringify_def skip_ws_stop is_ws_def)
  then show ?thesis
    by (simp add: Cons jsonifyArray_Cons)
qed

lemma parse_value_string:
  "parse_value (Suc n) (JSON_stringify x @ rest) = Some (Leaf (JStr x), rest)"
  by (simp add: JSON_stringify_def parse_chars_quoted)

lemma parse_value_start: "parse_value n s = Some x \<Longrightarrow> skip_ws s = s"
  by (cases n; cases s) (auto simp: skip_ws_def is_ws_def split: if_splits)

lemma reads_back_start:
  assumes "reads_back v indent k"
  shows "skip_ws (jsonifyValue v indent k @ tail) = jsonifyValue v indent k @ tail"
proof -
  from assms have "parse_value (length (jsonifyValue v indent k)) (jsonifyValue v indent k @ tail)
      = Some (v, tail)"
    by (simp add: reads_back_def)
  then show ?thesis by (rule parse_value_start)
qed

lemma jsonifyObject_loop_Cons_False:
  "jsonifyObject_loop ((k, v) # ps) indent False =
     '','' @ [NL] @ ''  '' @ indent @ DQ # k @ [DQ] @ '': '' @ jsonifyValue v indent k @
     jsonifyObject_loop ps indent False"
  by simp

lemma parse_string_plain: "plain k \<Longrightarrow> parse_string (DQ # k @ DQ # rest) = Some (k, rest)"
  by (simp add: parse_string_def parse_chars_plain)

lemma enumerated_before_asym: "enumerated_before k k' \<Longrightarrow> \<not> enumerated_before k' k"
  by (auto simp: enumerated_before_def split: if_splits)

lemma enumerated_before_earlier:
  "enumerated_before k k' \<Longrightarrow> \<not> enumerated_before k'' k' \<Longrightarrow> \<not> enumerated_before k'' k"
  by (auto simp: enumerated_before_def split: if_splits)

lemma in_order_Cons:
  "in_order (p # obj) = ((\<forall>k' \<in> fst ` set obj. \<not> enumerated_before k' (fst p)) \<and> in_order obj)"
  by (cases p) (auto simp: list_all_iff)

lemma in_order_cong: "map fst a = map fst b \<Longrightarrow> in_order a = in_order b"
proof (induction a arbitrary: b)
  case Nil
  then show ?case by simp
next
  case (Cons p a)
  then obtain q b' where b: "b = q # b'" "fst p = fst q" "map fst a = map fst b'" by auto
  from b(3) have "fst ` set a = fst ` set b'" by (metis list.set_map)
  with Cons.IH [OF b(3)] b(1,2) show ?case by (simp only: in_order_Cons)
qed

lemma in_order_append:
  "in_order (a @ b) =
     (in_order a \<and> in_order b \<and>
      (\<forall>k \<in> fst ` set a. \<forall>k' \<in> fst ` set b. \<not> enumerated_before k' k))"
proof (induction a)
  case Nil
  show ?case by simp
next
  case (Cons p a)
  have "in_order ((p # a) @ b) =
      ((\<forall>k' \<in> fst ` set a \<union> fst ` set b. \<not> enumerated_before k' (fst p)) \<and> in_order (a @ b))"
    by (simp only: append_Cons in_order_Cons set_append image_Un)
  also have "\<dots> =
      ((\<forall>k' \<in> fst ` set a. \<not> enumerated_before k' (fst p)) \<and> in_order a \<and> in_order b \<and>
       (\<forall>k' \<in> fst ` set b. \<not> enumerated_before k' (fst p)) \<and>
       (\<forall>k \<in> fst ` set a. \<forall>k' \<in> fst ` set b. \<not> enumerated_before k' k))"
    unfolding Cons.IH by blast
  also have "\<dots> = (in_order (p # a) \<and> in_order b \<and>
      (\<forall>k \<in> fst ` set (p # a). \<forall>k' \<in> fst ` set b. \<not> enumerated_before k' k))"
    unfolding in_order_Cons by (simp only: list.set image_insert ball_simps) blast
  finally show ?case .
qed

lemma in_order_js_insert: "in_order obj \<Longrightarrow> in_order (js_insert obj k v)"
proof (induction obj)
  case Nil
  show ?case by simp
next
  case (Cons p obj)
  obtain k' v' where p: "p = (k', v')" by (cases p)
  from Cons.prems p have later: "\<forall>k'' \<in> fst ` set obj. \<not> enumerated_before k'' k'"
    and rest: "in_order obj"
    by (simp_all add: in_order_Cons)
  show ?case
  proof (cases "enumerated_before k k'")
    case True
    have "\<forall>k'' \<in> fst ` set ((k', v') # obj). \<not> enumerated_before k'' k"
      using later enumerated_before_asym [OF True] enumerated_before_earlier [OF True]
      by auto
    then have "in_order ((k, v) # (k', v') # obj)"
      using Cons.prems p unfolding in_order_Cons [of "(k, v)"] fst_conv by blast
    with True p show ?thesis by simp
  next
    case False
    have "fst ` set (js_insert obj k v) = insert k (fst ` set obj)"
      by (simp add: set_js_insert)
    with later False have "\<forall>k'' \<in> fst ` set (js_insert obj k v). \<not> enumerated_before k'' k'"
      by simp
    with Cons.IH [OF rest] have "in_order ((k', v') # js_insert obj k v)"
      unfolding in_order_Cons [of "(k', v')"] fst_conv by blast
    with False p show ?thesis by simp
  qed
qed

lemma in_order_js_put: "in_order obj \<Longrightarrow> in_order (js_put obj k v)"
  using in_order_cong [OF keys_js_update [of obj k v]]
  by (simp add: js_put_def in_order_js_insert)

lemma in_order_no_index: "\<forall>k \<in> fst ` set obj. \<not> is_array_index k \<Longrightarrow> in_order obj"
proof (induction obj)
  case Nil
  show ?case by simp
next
  case (Cons p obj)
  then have "in_order obj" by simp
  moreover have "\<forall>k' \<in> fst ` set obj. \<not> enumerated_before k' (fst p)"
    using Cons.prems by (simp add: enumerated_before_def)
  ultimately show ?case unfolding in_order_Cons by blast
qed

lemma parse_members_rendered:
  assumes "blank indent"
  shows "plain k \<Longrightarrow> reads_back v indent k \<Longrightarrow>
    \<forall>(k', v') \<in> set ps. plain k' \<and> reads_back v' indent k' \<Longrightarrow>
    distinct (map fst acc @ k # map fst ps) \<Longrightarrow>
    in_order (acc @ (k, v) # ps) \<Longrightarrow>
    Suc (length (jsonifyValue v indent k) + length (jsonifyObject_loop ps indent False)) \<le> n \<Longrightarrow>
    parse_members n acc
      (DQ # k @ [DQ] @ '': '' @ jsonifyValue v indent k @ jsonifyObject_loop ps indent False @
       [NL] @ indent @ ''}'' @ tail)
     = Some (acc @ (k, v) # ps, tail)"
proof (induction ps arbitrary: k v acc n)
  case Nil
  then obtain m where n: "n = Suc m" by (cases n) auto
  with Nil.prems have m: "length (jsonifyValue v indent k) \<le> m" by simp
  have v: "parse_value m (jsonifyValue v indent k @ [NL] @ indent @ ''}'' @ tail)
      = Some (v, [NL] @ indent @ ''}'' @ tail)"
    using Nil.prems(2) m by (simp add: reads_back_def)
  have s: "skip_ws (jsonifyValue v indent k @ [NL] @ indent @ ''}'' @ tail)
      = jsonifyValue v indent k @ [NL] @ indent @ ''}'' @ tail"
    using Nil.prems(2) by (rule reads_back_start)
  have e: "skip_ws ([NL] @ indent @ ''}'' @ tail) = ''}'' @ tail"
    using assms by (simp add: skip_ws_NL skip_ws_blank skip_ws_stop is_ws_def)
  have f: "k \<notin> fst ` set acc" using Nil.prems(4) by auto
  have g: "\<forall>k' \<in> fst ` set acc. \<not> enumerated_before k k'"
    using Nil.prems(5) unfolding in_order_append by simp
  show ?case
    using v s e Nil.prems(1)
    by (simp add: n parse_string_plain skip_ws_stop skip_ws_space is_ws_def js_put_last [OF f g])
next
  case (Cons p ps)
  obtain k1 v1 where p: "p = (k1, v1)" by (cases p)
  from Cons.prems obtain m where n: "n = Suc m" by (cases n) auto
  let ?rest = "jsonifyObject_loop ps indent False @ [NL] @ indent @ ''}'' @ tail"
  let ?next = "DQ # k1 @ [DQ] @ '': '' @ jsonifyValue v1 indent k1 @ ?rest"
  have loop: "jsonifyObject_loop (p # ps) indent False @ [NL] @ indent @ ''}'' @ tail
      = '','' @ [NL] @ ''  '' @ indent @ ?next"
    by (simp add: p)
  have len: "length (jsonifyObject_loop (p # ps) indent False) =
      5 + length indent + length k1 + 3 + length (jsonifyValue v1 indent k1)
        + length (jsonifyObject_loop ps indent False)"
    by (simp add: p)
  from Cons.prems(6) n len have m: "length (jsonifyValue v indent k) \<le> m"
    and m': "Suc (length (jsonifyValue v1 indent k1) + length (jsonifyObject_loop ps indent False))
       \<le> m"
    by simp_all
  have v: "parse_value m (jsonifyValue v indent k @ '','' @ [NL] @ ''  '' @ indent @ ?next)
      = Some (v, '','' @ [NL] @ ''  '' @ indent @ ?next)"
    using Cons.prems(2) m by (simp add: reads_back_def)
  have s: "skip_ws (jsonifyValue v indent k @ '','' @ [NL] @ ''  '' @ indent @ ?next)
      = jsonifyValue v indent k @ '','' @ [NL] @ ''  '' @ indent @ ?next"
    using Cons.prems(2) by (rule reads_back_start)
  have e: "skip_ws ([NL] @ ''  '' @ indent @ ?next) = ?next"
    using assms by (simp add: skip_ws_NL skip_ws_space skip_ws_blank skip_ws_stop is_ws_def)
  have f: "k \<notin> fst ` set acc" using Cons.prems(4) by auto
  have g: "\<forall>k' \<in> fst ` set acc. \<not> enumerated_before k k'"
    using Cons.prems(5) unfolding in_order_append by simp
  have k1: "plain k1" "reads_back v1 indent k1"
    and ps: "\<forall>(k', v') \<in> set ps. plain k' \<and> reads_back v' indent k'"
    using Cons.prems(3) p by auto
  have d: "distinct (map fst (acc @ [(k, v)]) @ k1 # map fst ps)"
    using Cons.prems(4) p by auto
  have o: "in_order ((acc @ [(k, v)]) @ (k1, v1) # ps)"
    using Cons.prems(5) p by simp
  have IH: "parse_members m (acc @ [(k, v)]) ?next = Some ((acc @ [(k, v)]) @ (k1, v1) # ps, tail)"
    using Cons.IH [OF k1 ps d o m'] .
  have "parse_members (Suc m) acc
      (DQ # k @ [DQ] @ '': '' @ jsonifyValue v indent k @ '','' @ [NL] @ ''  '' @ indent @ ?next)
     = Some (acc @ (k, v) # (k1, v1) # ps, tail)"
    using v s e IH Cons.prems(1)
    by (simp add: parse_string_plain skip_ws_stop skip_ws_space is_ws_def js_put_last [OF f g])
  then show ?case
    using loop by (simp add: n p)
qed

lemma parse_value_object:
  assumes "blank indent"
    and "\<forall>(k, v) \<in> set ps. plain k \<and> reads_back v indent k"
    and "distinct (map fst ps)" "in_order ps"
    and "length (jsonifyObject ps indent) \<le> n"
  shows "parse_value n (jsonifyObject ps indent @ tail) = Some (Obj ps, tail)"
proof (cases ps)
  case Nil
  with assms(5) obtain m where "n = Suc m" by (cases n) auto
  then show ?thesis
    by (simp add: Nil skip_ws_stop is_ws_def)
next
  case (Cons p ps')
  obtain k v where p: "p = (k, v)" by (cases p)
  let ?body = "DQ # k @ [DQ] @ '': '' @ jsonifyValue v indent k @
      jsonifyObject_loop ps' indent False"
  have obj: "jsonifyObject ps indent = ''{'' @ [NL] @ ''  '' @ indent @ ?body @ [NL] @ indent @ ''}''"
    by (simp add: Cons p)
  from assms(5) obj obtain m where n: "n = Suc m" by (cases n) auto
  have m: "Suc (length (jsonifyValue v indent k) + length (jsonifyObject_loop ps' indent False)) \<le> m"
    using assms(5) unfolding obj n by simp
  have kv: "plain k" "reads_back v indent k"
    and rest: "\<forall>(k', v') \<in> set ps'. plain k' \<and> reads_back v' indent k'"
    using assms(2) Cons p by auto
  have d: "distinct (map fst [] @ k # map fst ps')"
    using assms(3) Cons p by simp
  have o: "in_order ([] @ (k, v) # ps')"
    using assms(4) Cons p by simp
  have mem: "parse_members m []
      (DQ # k @ [DQ] @ '': '' @ jsonifyValue v indent k @ jsonifyObject_loop ps' indent False @
       [NL] @ indent @ ''}'' @ tail)
     = Some ([] @ (k, v) # ps', tail)"
    using parse_members_rendered [OF assms(1) kv rest d o m] .
  have e: "skip_ws ([NL] @ ''  '' @ indent @ ?body @ [NL] @ indent @ ''}'' @ tail)
      = ?body @ [NL] @ indent @ ''}'' @ tail"
    using assms(1) by (simp add: skip_ws_NL skip_ws_space skip_ws_blank skip_ws_stop is_ws_def)
  have "parse_value (Suc m)
      (''{'' @ [NL] @ ''  '' @ indent @ ?body @ [NL] @ indent @ ''}'' @ tail)
     = Some (Obj ps, tail)"
    using e mem by (simp add: Cons p)
  then show ?thesis
    unfolding n obj by simp
qed


lemma length_jsonifyArray: "Suc (length xs) \<le> length (jsonifyArray xs indent)"
proof (cases xs)
  case Nil
  then show ?thesis by (simp add: jsonifyArray_def)
next
  case (Cons x xs')
  have "length xs' \<le> length (concat (map (\<lambda>y. '','' @ [NL] @ ''  '' @ indent @ JSON_stringify y) xs'))"
    by (induction xs') simp_all
  then show ?thesis by (simp add: Cons jsonifyArray_Cons)
qed

lemma blank_take_spaces16: "blank (take n spaces16)"
  by (auto simp: blank_def spaces16_def dest: in_set_takeD)

lemma reads_back_Leaf: "blank indent \<Longrightarrow> reads_back (Leaf x) indent k"
proof (cases x)
  case (JStr s)
  have "parse_value n (JSON_stringify s @ tail) = Some (Leaf (JStr s), tail)"
    if "length (JSON_stringify s) \<le> n" for n tail
  proof -
    from that obtain m where "n = Suc m" by (cases n) (auto simp: JSON_stringify_def)
    then show ?thesis by (simp only: parse_value_string)
  qed
  then show ?thesis by (simp add: reads_back_def JStr)
next
  case (JArr xs)
  assume b: "blank indent"
  then have b': "blank (indent @ take (5 + length k) spaces16)"
    using blank_take_spaces16 [of "5 + length k"] by (auto simp: blank_def)
  have "parse_value n (jsonifyArray xs (indent @ take (5 + length k) spaces16) @ tail)
      = Some (Leaf (JArr xs), tail)"
    if "length (jsonifyArray xs (indent @ take (5 + length k) spaces16)) \<le> n" for n tail
  proof -
    from that length_jsonifyArray [of xs "indent @ take (5 + length k) spaces16"]
    obtain m where n: "n = Suc m" and m: "length xs \<le> m" by (cases n) auto
    show ?thesis unfolding n using b' m by (rule parse_value_array)
  qed
  then show ?thesis by (simp add: reads_back_def JArr)
qed

lemma reads_back_submapping:
  assumes "blank indent" "plain_keys sub"
  shows "reads_back (tree_of_submapping sub) indent k"
proof -
  have b: "blank (indent @ ''  '')" using assms(1) by (auto simp: blank_def)
  have vals: "\<forall>(k', v') \<in> set (map (\<lambda>(k, v). (k, Leaf v)) sub).
      plain k' \<and> reads_back v' (indent @ ''  '') k'"
    using assms(2) b by (auto simp: plain_keys_def reads_back_Leaf)
  have keys: "map fst (map (\<lambda>(k, v). (k, Leaf v)) sub) = map fst sub"
    by (simp add: case_prod_beta comp_def)
  have d: "distinct (map fst (map (\<lambda>(k, v). (k, Leaf v)) sub))"
    using assms(2) unfolding keys by (simp add: plain_keys_def)
  have o: "in_order (map (\<lambda>(k, v). (k, Leaf v)) sub)"
    using assms(2) in_order_cong [OF keys] by (simp add: plain_keys_def)
  show ?thesis
    unfolding reads_back_def tree_of_submapping_def
    using parse_value_object [OF b vals d o] by simp
qed

lemma parse_value_mapping:
  assumes "plain_keys md" "\<forall>(n, sub) \<in> set md. plain_keys sub"
    and "length (jsonifyObject (tree_of_mapping md) []) \<le> n"
  shows "parse_value n (jsonifyObject (tree_of_mapping md) [] @ tail)
     = Some (Obj (tree_of_mapping md), tail)"
proof -
  have b: "blank []" by (simp add: blank_def)
  have vals: "\<forall>(k, v) \<in> set (tree_of_mapping md). plain k \<and> reads_back v [] k"
    using assms(1,2) b by (auto simp: tree_of_mapping_def plain_keys_def reads_back_submapping)
  have keys: "map fst (tree_of_mapping md) = map fst md"
    by (simp add: tree_of_mapping_def case_prod_beta comp_def)
  have d: "distinct (map fst (tree_of_mapping md))"
    using assms(1) unfolding keys by (simp add: plain_keys_def)
  have o: "in_order (tree_of_mapping md)"
    using assms(1) in_order_cong [OF keys] by (simp add: plain_keys_def)
  show ?thesis
    using b vals d o assms(3) by (rule parse_value_object)
qed


lemma leaves_tree: "leaves (map (\<lambda>(k, v). (k, Leaf v)) sub) = Some sub"
  by (induction sub) auto

lemma mapping_of_props_tree: "mapping_of_props (tree_of_mapping md) = Some md"
  by (induction md) (auto simp: tree_of_mapping_def tree_of_submapping_def leaves_tree)

lemma generateSource_parts:
  "generateSource md = source_header @ jsonifyObject (tree_of_mapping md) [] @ source_footer"
  by (simp add: generateSource_def source_header_def source_footer_def)

lemma plain_keys_js_put:
  assumes "plain_keys obj" "plain k"
  shows "plain_keys (js_put obj k v)"
proof -
  have "fst ` set (js_put obj k v) = insert k (fst ` set obj)" by (rule keys_js_put)
  with assms show ?thesis by (simp add: plain_keys_def distinct_js_put in_order_js_put)
qed

lemma plain_recognized: "\<forall>k \<in> set [''help'', ''assert'', ''author'']. plain k"
  by (simp add: plain_def)

lemma plain_keys_extractFromTest:
  fixes t :: "'a test"
  assumes "extractFromTest t = Inr obj"
  shows "plain_keys obj"
proof -
  from assms have run: "extractFromTest_loop t metadataProperties [] = Inr obj"
    by (simp add: extractFromTest_def)
  have d: "distinct metadataProperties" by (simp add: metadataProperties_def)
  have "set metadataProperties \<inter> fst ` set ([] :: (string \<times> 'a) list) = {}" by simp
  from keys_extractFromTest_loop [OF run d this not_index_recognized]
  have k: "map fst obj = filter (builtin_hasOwnProperty (properties t)) metadataProperties"
    by simp
  have 1: "distinct (map fst obj)" unfolding k using d by (rule distinct_filter)
  have s: "set (map fst obj) \<subseteq> set metadataProperties" unfolding k by auto
  have 2: "\<forall>k \<in> set (map fst obj). plain k"
    using s plain_recognized by (auto simp: metadataProperties_def)
  have "\<forall>k \<in> fst ` set obj. \<not> is_array_index k"
    using s not_index_recognized by auto
  then have 3: "in_order obj" by (rule in_order_no_index)
  from 1 2 3 show ?thesis unfolding plain_keys_def by blast
qed

lemma process_test_plain:
  assumes "plain_keys (metadata s)" "\<forall>(n, sub) \<in> set (metadata s). plain_keys sub" "plain (name t)"
  shows "plain_keys (metadata (snd (process_test t s)))
    \<and> (\<forall>(n, sub) \<in> set (metadata (snd (process_test t s))). plain_keys sub)"
proof (cases t s rule: process_test_cases)
  case taken
  with assms show ?thesis by simp
next
  case (throws e)
  with assms show ?thesis by simp
next
  case (records testMetadata)
  have "set (js_put (metadata s) (name t) testMetadata)
      \<subseteq> insert (name t, testMetadata) (set (metadata s))"
    by (rule set_js_put)
  then have "\<forall>(n, sub) \<in> set (js_put (metadata s) (name t) testMetadata). plain_keys sub"
    using assms(2) plain_keys_extractFromTest [OF records(2)] by auto
  with records assms(1,3) show ?thesis
    by (simp add: plain_keys_js_put)
qed

lemma extract_tests_plain:
  "plain_keys (metadata s) \<Longrightarrow> \<forall>(n, sub) \<in> set (metadata s). plain_keys sub \<Longrightarrow>
   \<forall>t \<in> set tests. plain (name t) \<Longrightarrow>
   plain_keys (metadata (snd (extract_tests tests s)))
    \<and> (\<forall>(n, sub) \<in> set (metadata (snd (extract_tests tests s))). plain_keys sub)"
proof (induction tests arbitrary: s)
  case Nil
  then show ?case by simp
next
  case (Cons t tests)
  from Cons.prems have "plain (name t)" by simp
  with Cons.prems(1,2) have
    "plain_keys (metadata (snd (process_test t s)))
      \<and> (\<forall>(n, sub) \<in> set (metadata (snd (process_test t s))). plain_keys sub)"
    by (rule process_test_plain)
  with Cons.IH [of "snd (process_test t s)"] Cons.prems(3) show ?case
    unfolding extract_tests_Cons by simp
qed

text \<open>
  The source generated for a mapping reads back as the mapping when the names of the
  tests and the keys of the sub-mappings are plain, distinct and in the order of
  enumeration. The keys that \<open>extractFromTest\<close> gives a sub-mapping are, so the source
  of what \<open>process\<close> has extracted from the initial state reads back when the names of
  the tests are plain.
\<close>

lemma read_source_generateSource:
  assumes "plain_keys md" "\<forall>(n, sub) \<in> set md. plain_keys sub"
  shows "read_source (generateSource md) = Some md"
proof -
  let ?lit = "jsonifyObject (tree_of_mapping md) []"
  have "length ?lit \<le> length (generateSource md)"
    by (simp add: generateSource_parts)
  then have "parse_value (length (generateSource md)) (?lit @ source_footer)
      = Some (Obj (tree_of_mapping md), source_footer)"
    using assms by (rule parse_value_mapping [rotated 2])
  then show ?thesis
    by (simp add: read_source_def generateSource_parts mapping_of_props_tree)
qed

lemma process_source_reads_back:
  assumes "\<forall>t \<in> set tests. plain (name t)"
  shows "read_source (generateSource (metadata (snd (process tests (initial cached doc)))))
     = Some (metadata (snd (process tests (initial cached doc))))"
proof -
  have "plain_keys (metadata (initial cached doc))"
    and "\<forall>(n, sub) \<in> set (metadata (initial cached doc)). plain_keys sub"
    by (simp_all add: initial_def plain_keys_def)
  from extract_tests_plain [OF this assms] show ?thesis
    by (simp add: metadata_process read_source_generateSource)
qed

lemma process_source_reads_back_example:
  "read_source (generateSource (metadata (snd (process
      [\<lparr>name = ''t1'', properties = [(''help'', JArr [''h1''])]\<rparr>,
       \<lparr>name = ''t2'', properties = [(''assert'', JArr [''a1'', ''a2''])]\<rparr>] (initial None [])))))
     = Some [(''t1'', [(''help'', JArr [''h1''])]), (''t2'', [(''assert'', JArr [''a1'', ''a2''])])]"
proof -
  have m: "metadata (snd (process
      [\<lparr>name = ''t1'', properties = [(''help'', JArr [''h1''])]\<rparr>,
       \<lparr>name = ''t2'', properties = [(''assert'', JArr [''a1'', ''a2''])]\<rparr>] (initial None [])))
     = [(''t1'', [(''help'', JArr [''h1''])]), (''t2'', [(''assert'', JArr [''a1'', ''a2''])])]"
    unfolding metadata_process by code_simp
  have "\<forall>t \<in> set [\<lparr>name = ''t1'', properties = [(''help'', JArr [''h1''])]\<rparr>,
       \<lparr>name = ''t2'', properties = [(''assert'', JArr [''a1'', ''a2''])]\<rparr>]. plain (name t)"
    by (simp add: plain_def)
  from process_source_reads_back [OF this, of None "[]"] show ?thesis
    unfolding m .
qed

text \<open>
  A property name goes between double quotes as it is. A double quote in the name of a
  test ends the quoted name early in the generated source, which then does not read.
\<close>


lemma generateSource_quote_in_name:
  \<open>generateSource [(''a"b'', [(''help'', JArr [''h1''])])] =
     ''<script id="test_metadata">'' @ [NL] @
     ''var cached_metadata = {'' @ [NL] @
     ''  "a"b": {'' @ [NL] @
     ''    "help": ["h1"]'' @ [NL] @
     ''  }'' @ [NL] @
     ''}'' @ [NL] @
     ''</script>'' @ [NL]\<close>
  by (simp add: generateSource_def tree_of_mapping_def tree_of_submapping_def jsonifyArray_def
      take_9_spaces16 JSON_stringify_def JSON_quote_char_def)

lemma read_source_quote_in_name:
  \<open>read_source (generateSource [(''a"b'', [(''help'', JArr [''h1''])])]) = None\<close>
  by code_simp

lemma read_source_two_names:
  \<open>read_source (generateSource [(''a": {},'' @ [NL] @ ''  "b'', [])]) = Some [(''a'', []), (''b'', [])]\<close>
  by code_simp

text \<open>
  C5. \<^verbatim>\<open>jsonifyObject\<close> puts a property name between double quotes as it is, where it
  passes a value through \<^verbatim>\<open>JSON.stringify\<close>. The one test whose name is
  \<^verbatim>\<open>a": {},\<close>, a line break and \<^verbatim>\<open>  "b\<close> gives an extracted mapping with that one name.
  The source generated for it reads back as a mapping with the two names \<^verbatim>\<open>a\<close> and
  \<^verbatim>\<open>b\<close>: it is the source generated for the extracted mapping of two tests of these
  names, so that no function from source text to mappings gives back both mappings. The
  source generated for the one test named \<^verbatim>\<open>a"b\<close> does not read at all.
\<close>

theorem generateSource_name_not_escaped:
  \<open>metadata (snd (process [\<lparr>name = ''a": {},'' @ [NL] @ ''  "b'', properties = []\<rparr>] (initial None [])))
     = [(''a": {},'' @ [NL] @ ''  "b'', [])]
   \<and> generateSource [(''a": {},'' @ [NL] @ ''  "b'', [])] =
     ''<script id="test_metadata">'' @ [NL] @
     ''var cached_metadata = {'' @ [NL] @
     ''  "a": {},'' @ [NL] @
     ''  "b": {}'' @ [NL] @
     ''}'' @ [NL] @
     ''</script>'' @ [NL]
   \<and> read_source (generateSource [(''a": {},'' @ [NL] @ ''  "b'', [])])
     = Some [(''a'', []), (''b'', [])]
   \<and> generateSource [(''a": {},'' @ [NL] @ ''  "b'', [])] = generateSource [(''a'', []), (''b'', [])]
   \<and> \<not> (\<exists>parse :: string \<Rightarrow> mapping.
          parse (generateSource [(''a": {},'' @ [NL] @ ''  "b'', [])])
            = [(''a": {},'' @ [NL] @ ''  "b'', [])]
        \<and> parse (generateSource [(''a'', []), (''b'', [])]) = [(''a'', []), (''b'', [])])
   \<and> metadata (snd (process [\<lparr>name = ''a"b'', properties = [(''help'', JArr [''h1''])]\<rparr>] (initial None [])))
     = [(''a"b'', [(''help'', JArr [''h1''])])]
   \<and> read_source (generateSource [(''a"b'', [(''help'', JArr [''h1''])])]) = None\<close>
proof -
  have m1: \<open>metadata (snd (process [\<lparr>name = ''a": {},'' @ [NL] @ ''  "b'', properties = []\<rparr>] (initial None [])))
     = [(''a": {},'' @ [NL] @ ''  "b'', [])]\<close>
    unfolding metadata_process by code_simp
  have m3: \<open>metadata (snd (process [\<lparr>name = ''a"b'', properties = [(''help'', JArr [''h1''])]\<rparr>] (initial None [])))
     = [(''a"b'', [(''help'', JArr [''h1''])])]\<close>
    unfolding metadata_process by code_simp
  have g1: \<open>generateSource [(''a": {},'' @ [NL] @ ''  "b'', [])] =
     ''<script id="test_metadata">'' @ [NL] @
     ''var cached_metadata = {'' @ [NL] @
     ''  "a": {},'' @ [NL] @
     ''  "b": {}'' @ [NL] @
     ''}'' @ [NL] @
     ''</script>'' @ [NL]\<close>
    by (simp add: generateSource_def tree_of_mapping_def tree_of_submapping_def)
  have g2: \<open>generateSource [(''a'', []), (''b'', [])] =
     ''<script id="test_metadata">'' @ [NL] @
     ''var cached_metadata = {'' @ [NL] @
     ''  "a": {},'' @ [NL] @
     ''  "b": {}'' @ [NL] @
     ''}'' @ [NL] @
     ''</script>'' @ [NL]\<close>
    by (simp add: generateSource_def tree_of_mapping_def tree_of_submapping_def)
  have same: \<open>generateSource [(''a": {},'' @ [NL] @ ''  "b'', [])] =
      generateSource [(''a'', []), (''b'', [])]\<close>
    by (simp only: g1 g2)
  have no: \<open>\<not> (\<exists>parse :: string \<Rightarrow> mapping.
          parse (generateSource [(''a": {},'' @ [NL] @ ''  "b'', [])])
            = [(''a": {},'' @ [NL] @ ''  "b'', [])]
        \<and> parse (generateSource [(''a'', []), (''b'', [])]) = [(''a'', []), (''b'', [])])\<close>
    unfolding same by auto
  from m1 m3 g1 same no read_source_two_names read_source_quote_in_name show ?thesis by blast
qed


end
